theory Spec2Isabelle
  imports Complex_Main "HOL-Library.Multiset"
begin

section \<open>JavaScript values used by the calibration-table utilities\<close>

text \<open>
  The utilities of \<^verbatim>\<open>src/src/plugin.js\<close> work on a table of cell texts
  (\<^verbatim>\<open>string[][]\<close>).  A cell text is a list of characters; reading a column that a
  row does not have yields \<^verbatim>\<open>undefined\<close>, modelled as \<open>None\<close>.

  A JavaScript number is one of the IEEE special values or a finite value.  Finite values
  are exact reals here: rounding to a double, overflow to \<^verbatim>\<open>Infinity\<close> and the sign of
  zero are not represented.  The special values are kept, because \<^verbatim>\<open>parseFloat\<close>
  reads the literal \<^verbatim>\<open>Infinity\<close> and because a zero \<^verbatim>\<open>sigma\<close> makes the Gaussian
  kernel \<^verbatim>\<open>NaN\<close>.
\<close>

datatype number = Fin real | PInf | NInf | NaN

datatype error = RangeError | TypeError

type_synonym grid = "string list list"

fun jsadd :: "number \<Rightarrow> number \<Rightarrow> number" where
  "jsadd NaN _ = NaN"
| "jsadd _ NaN = NaN"
| "jsadd PInf NInf = NaN"
| "jsadd NInf PInf = NaN"
| "jsadd PInf _ = PInf"
| "jsadd _ PInf = PInf"
| "jsadd NInf _ = NInf"
| "jsadd _ NInf = NInf"
| "jsadd (Fin a) (Fin b) = Fin (a + b)"

text \<open>Addition is associative and commutative (there is no rounding in the model), so
  a sum does not depend on the order of its terms.\<close>

instantiation number :: comm_monoid_add
begin

definition zero_number :: number where
  "zero_number = Fin 0"

definition plus_number :: "number \<Rightarrow> number \<Rightarrow> number" where
  "plus_number a b = jsadd a b"

instance
proof
  fix a b c :: number
  show "a + b + c = a + (b + c)"
    unfolding plus_number_def by (cases a; cases b; cases c) simp_all
  show "a + b = b + a"
    unfolding plus_number_def by (cases a; cases b) simp_all
  show "0 + a = a"
    unfolding plus_number_def zero_number_def by (cases a) simp_all
qed

end

fun jsneg :: "number \<Rightarrow> number" where
  "jsneg (Fin a) = Fin (- a)"
| "jsneg PInf = NInf"
| "jsneg NInf = PInf"
| "jsneg NaN = NaN"

fun jsmul :: "number \<Rightarrow> number \<Rightarrow> number" where
  "jsmul NaN _ = NaN"
| "jsmul _ NaN = NaN"
| "jsmul (Fin a) (Fin b) = Fin (a * b)"
| "jsmul (Fin a) PInf = (if a = 0 then NaN else if 0 < a then PInf else NInf)"
| "jsmul (Fin a) NInf = (if a = 0 then NaN else if 0 < a then NInf else PInf)"
| "jsmul PInf (Fin b) = (if b = 0 then NaN else if 0 < b then PInf else NInf)"
| "jsmul NInf (Fin b) = (if b = 0 then NaN else if 0 < b then NInf else PInf)"
| "jsmul PInf PInf = PInf"
| "jsmul NInf NInf = PInf"
| "jsmul PInf NInf = NInf"
| "jsmul NInf PInf = NInf"

text \<open>Division; a zero divisor is the positive zero.\<close>

fun jsdiv :: "number \<Rightarrow> number \<Rightarrow> number" where
  "jsdiv NaN _ = NaN"
| "jsdiv _ NaN = NaN"
| "jsdiv (Fin a) (Fin b) =
     (if b = 0 then (if a = 0 then NaN else if 0 < a then PInf else NInf) else Fin (a / b))"
| "jsdiv (Fin a) PInf = Fin 0"
| "jsdiv (Fin a) NInf = Fin 0"
| "jsdiv PInf (Fin b) = (if 0 \<le> b then PInf else NInf)"
| "jsdiv NInf (Fin b) = (if 0 \<le> b then NInf else PInf)"
| "jsdiv _ _ = NaN"

text \<open>The comparison \<^verbatim>\<open>x > 0\<close>.\<close>

fun jspos :: "number \<Rightarrow> bool" where
  "jspos (Fin a) = (0 < a)"
| "jspos PInf = True"
| "jspos _ = False"

fun jsexp :: "number \<Rightarrow> number" where
  "jsexp (Fin a) = Fin (exp a)"
| "jsexp PInf = PInf"
| "jsexp NInf = Fin 0"
| "jsexp NaN = NaN"

subsection \<open>Strings\<close>

definition is_digit :: "char \<Rightarrow> bool" where
  "is_digit c = (48 \<le> (of_char c :: nat) \<and> (of_char c :: nat) \<le> 57)"

definition digit_val :: "char \<Rightarrow> int" where
  "digit_val c = of_char c - 48"

definition digit_char :: "int \<Rightarrow> char" where
  "digit_char d = char_of (48 + d)"

text \<open>White space removed by \<^verbatim>\<open>String.prototype.trim\<close>, among the characters of one byte:
  tab, line feed, vertical tab, form feed, carriage return, space and the no-break space.\<close>

definition is_space :: "char \<Rightarrow> bool" where
  "is_space c = (of_char c \<in> {9::nat, 10, 11, 12, 13, 32, 160})"

definition trim :: "string \<Rightarrow> string" where
  "trim s = rev (dropWhile is_space (rev (dropWhile is_space s)))"

text \<open>\<^verbatim>\<open>s.replace(/<[^>]*>/g, '')\<close>: scanning from the left, a \<^verbatim>\<open><\<close> that has a
  \<^verbatim>\<open>>\<close> somewhere after it is removed together with everything up to and including the
  first such \<^verbatim>\<open>>\<close>; any other character is kept.\<close>

function strip_tags :: "string \<Rightarrow> string" where
  "strip_tags [] = []"
| "strip_tags (c # cs) =
     (if c = CHR ''<'' \<and> CHR ''>'' \<in> set cs
      then strip_tags (tl (dropWhile (\<lambda>x. x \<noteq> CHR ''>'') cs))
      else c # strip_tags cs)"
  by pat_completeness auto
termination
proof (relation "measure length")
  fix c :: char and cs :: string
  have "length (tl (dropWhile (\<lambda>x. x \<noteq> CHR ''>'') cs)) \<le> length cs"
    using length_dropWhile_le [of "\<lambda>x. x \<noteq> CHR ''>''" cs] by simp
  then show "(tl (dropWhile (\<lambda>x. x \<noteq> CHR ''>'') cs), c # cs) \<in> measure length"
    by simp
qed simp_all

text \<open>\<^verbatim>\<open>s.split('.')[1]\<close>, for a text that contains a dot: the part between the first dot
  and the next one (or the end).\<close>

definition split_dot_1 :: "string \<Rightarrow> string" where
  "split_dot_1 s = takeWhile (\<lambda>x. x \<noteq> CHR ''.'') (tl (dropWhile (\<lambda>x. x \<noteq> CHR ''.'') s))"

subsection \<open>Reading and printing numbers\<close>

definition int_of_digits :: "string \<Rightarrow> int" where
  "int_of_digits ds = foldl (\<lambda>a c. 10 * a + digit_val c) 0 ds"

function digits_of :: "int \<Rightarrow> string" where
  "digits_of n = (if n < 10 then [digit_char n] else digits_of (n div 10) @ [digit_char (n mod 10)])"
  by pat_completeness auto
termination
  by (relation "measure nat") auto

declare digits_of.simps [simp del]

text \<open>The exponent part of a decimal literal: \<^verbatim>\<open>e\<close> or \<^verbatim>\<open>E\<close>, an optional sign and at
  least one digit; anything else is no exponent and the literal ends before it.\<close>

definition exponent_of :: "string \<Rightarrow> int" where
  "exponent_of s =
     (case s of
        [] \<Rightarrow> 0
      | c # r \<Rightarrow>
          if c = CHR ''e'' \<or> c = CHR ''E'' then
            (case r of
               [] \<Rightarrow> 0
             | d # r' \<Rightarrow>
                 if d = CHR ''-'' then
                   (if takeWhile is_digit r' = [] then 0
                    else - int_of_digits (takeWhile is_digit r'))
                 else if d = CHR ''+'' then int_of_digits (takeWhile is_digit r')
                 else int_of_digits (takeWhile is_digit r))
          else 0)"

text \<open>An unsigned decimal literal at the start of the text: \<^verbatim>\<open>Infinity\<close>, or digits with
  an optional fraction and exponent, or a dot followed by digits.  \<open>None\<close> when the text
  does not start with one.\<close>

definition unsigned_literal :: "string \<Rightarrow> number option" where
  "unsigned_literal s =
     (if take 8 s = ''Infinity'' then Some PInf
      else
        let ds = takeWhile is_digit s;
            r = dropWhile is_digit s;
            fs = (case r of [] \<Rightarrow> [] | c # r' \<Rightarrow> if c = CHR ''.'' then takeWhile is_digit r' else []);
            r2 = (case r of [] \<Rightarrow> [] | c # r' \<Rightarrow> if c = CHR ''.'' then dropWhile is_digit r' else r)
        in if ds = [] \<and> fs = [] then None
           else Some (Fin (real_of_int (int_of_digits (ds @ fs)) / 10 ^ length fs
                           * 10 powi exponent_of r2)))"

text \<open>\<^verbatim>\<open>parseFloat\<close>: leading white space is skipped, then an optional sign and the longest
  decimal literal; \<^verbatim>\<open>NaN\<close> when there is none.\<close>

definition parseFloat :: "string \<Rightarrow> number" where
  "parseFloat s =
     (case dropWhile is_space s of
        [] \<Rightarrow> NaN
      | c # r \<Rightarrow>
          if c = CHR ''-'' then (case unsigned_literal r of None \<Rightarrow> NaN | Some x \<Rightarrow> jsneg x)
          else if c = CHR ''+'' then (case unsigned_literal r of None \<Rightarrow> NaN | Some x \<Rightarrow> x)
          else (case unsigned_literal (c # r) of None \<Rightarrow> NaN | Some x \<Rightarrow> x))"


text \<open>\<^verbatim>\<open>Number.prototype.toString\<close> of a finite value of at least \<open>10\<^sup>2\<^sup>1\<close>, in exponent
  notation.  The engine prints the shortest digits that read back as the same double,
  never more than 17; over exact reals there is no double to read back, and the model
  prints 17 significant digits, rounded half up, without trailing zeros.\<close>

definition exp_notation :: "real \<Rightarrow> string" where
  "exp_notation a =
     (let l = length (digits_of \<lfloor>a\<rfloor>);
          m = \<lfloor>a / 10 ^ (l - 17) + 1 / 2\<rfloor>;
          m' = (if 10 ^ 17 \<le> m then m div 10 else m);
          e = (if 10 ^ 17 \<le> m then l else l - 1);
          ds = rev (dropWhile (\<lambda>c. c = CHR ''0'') (rev (digits_of m')))
      in (case ds of
            [] \<Rightarrow> ''0''
          | c # cs \<Rightarrow> c # (if cs = [] then [] else CHR ''.'' # cs)) @ ''e+'' @ digits_of (int e))"

text \<open>The digits of \<^verbatim>\<open>toFixed\<close> for \<open>0 \<le> a < 10\<^sup>2\<^sup>1\<close>: the integer \<open>n\<close> nearest to
  \<open>a * 10\<^sup>f\<close> (the larger one of two), padded with zeros to more than \<open>f\<close> digits, with
  a dot before the last \<open>f\<close> digits.\<close>

definition fixed_digits :: "real \<Rightarrow> nat \<Rightarrow> string" where
  "fixed_digits a f =
     (let m = digits_of \<lfloor>a * 10 ^ f + 1 / 2\<rfloor>
      in if f = 0 then m
         else let m2 = (if length m \<le> f then replicate (f + 1 - length m) CHR ''0'' @ m else m)
              in take (length m2 - f) m2 @ CHR ''.'' # drop (length m2 - f) m2)"

text \<open>\<^verbatim>\<open>x.toFixed(f)\<close>: a \<^verbatim>\<open>RangeError\<close> when \<open>f\<close> is more than 100, checked before
  anything else.\<close>

definition toFixed :: "number \<Rightarrow> nat \<Rightarrow> error + string" where
  "toFixed x f =
     (if 100 < f then Inl RangeError
      else case x of
             NaN \<Rightarrow> Inr ''NaN''
           | PInf \<Rightarrow> Inr ''Infinity''
           | NInf \<Rightarrow> Inr ''-Infinity''
           | Fin a \<Rightarrow>
               Inr ((if a < 0 then ''-'' else [])
                    @ (if 10 ^ 21 \<le> \<bar>a\<bar> then exp_notation \<bar>a\<bar> else fixed_digits \<bar>a\<bar> f)))"

section \<open>Cells\<close>

text \<open>\<^verbatim>\<open>content[r][c]\<close>: a \<^verbatim>\<open>TypeError\<close> when the table has no row \<open>r\<close> (the read of a
  property of \<^verbatim>\<open>undefined\<close>), \<^verbatim>\<open>undefined\<close> when row \<open>r\<close> has no column \<open>c\<close>.\<close>

definition cell :: "grid \<Rightarrow> int \<Rightarrow> int \<Rightarrow> error + string option" where
  "cell content r c =
     (if r < 0 \<or> int (length content) \<le> r then Inl TypeError
      else if 0 \<le> c \<and> c < int (length (content ! nat r))
           then Inr (Some (content ! nat r ! nat c))
           else Inr None)"

definition parseNumericValue :: "string option \<Rightarrow> number option" where
  "parseNumericValue content =
     (case content of
        None \<Rightarrow> None
      | Some s \<Rightarrow>
          if s = [] then None
          else let text = trim (strip_tags s);
                   num = parseFloat text
               in if num = NaN then None else Some num)"

text \<open>The number of decimals the three smoothing functions keep:
  \<^verbatim>\<open>c.includes('.') ? (c.split('.')[1] || '').replace(/<[^>]*>/g, '').length : 0\<close>.\<close>

definition decimals_of :: "string \<Rightarrow> nat" where
  "decimals_of c = (if CHR ''.'' \<in> set c then length (strip_tags (split_dot_1 c)) else 0)"

section \<open>The loop over the cells of the mask\<close>

text \<open>All four operations have the same frame: \<^verbatim>\<open>result\<close> is a copy of the table, the
  two \<^verbatim>\<open>for\<close> loops visit the cells \<open>(i, j)\<close> with \<open>startRow \<le> i < content.length\<close> and
  \<open>startCol \<le> j < content[i].length\<close> row by row, and the body either leaves
  \<^verbatim>\<open>result[i][j]\<close> alone, or stores a text there, or throws.\<close>

definition start_of :: "bool \<Rightarrow> nat" where
  "start_of skip = (if skip then 1 else 0)"

definition positions :: "'a list list \<Rightarrow> nat \<Rightarrow> nat \<Rightarrow> (nat \<times> nat) list" where
  "positions content startRow startCol =
     concat (map (\<lambda>i. map (\<lambda>j. (i, j)) [startCol ..< length (content ! i)])
                 [startRow ..< length content])"

definition write_cell :: "grid \<Rightarrow> nat \<Rightarrow> nat \<Rightarrow> string \<Rightarrow> grid" where
  "write_cell result i j t = result[i := (result ! i)[j := t]]"

fun step :: "(grid \<Rightarrow> nat \<Rightarrow> nat \<Rightarrow> error + string option) \<Rightarrow> grid \<Rightarrow> nat \<times> nat
               \<Rightarrow> error + grid \<Rightarrow> error + grid" where
  "step body content (i, j) (Inl e) = Inl e"
| "step body content (i, j) (Inr result) =
     (case body content i j of
        Inl e \<Rightarrow> Inl e
      | Inr None \<Rightarrow> Inr result
      | Inr (Some t) \<Rightarrow> Inr (write_cell result i j t))"

definition run :: "(grid \<Rightarrow> nat \<Rightarrow> nat \<Rightarrow> error + string option) \<Rightarrow> grid \<Rightarrow> (nat \<times> nat) list
               \<Rightarrow> error + grid" where
  "run body content ps = fold (step body content) ps (Inr (map (\<lambda>row. row) content))"

text \<open>The test both window loops make before they read a neighbour, and the neighbour's
  value.  The column bound is the length of the row of the cell being smoothed, not of
  the neighbour's row.\<close>

definition in_window :: "grid \<Rightarrow> nat \<Rightarrow> nat \<Rightarrow> nat \<Rightarrow> int \<Rightarrow> int \<Rightarrow> bool" where
  "in_window content startRow startCol i ni nj =
     (int startRow \<le> ni \<and> ni < int (length content) \<and>
      int startCol \<le> nj \<and> nj < int (length (content ! i)))"

definition neighborValue :: "grid \<Rightarrow> int \<Rightarrow> int \<Rightarrow> error + number option" where
  "neighborValue content ni nj =
     (case cell content ni nj of Inl e \<Rightarrow> Inl e | Inr t \<Rightarrow> Inr (parseNumericValue t))"

section \<open>applyMovingAverage\<close>

fun ma_window :: "grid \<Rightarrow> nat \<Rightarrow> nat \<Rightarrow> nat \<Rightarrow> nat \<Rightarrow> (int \<times> int) list \<Rightarrow> number \<times> nat
                   \<Rightarrow> error + number \<times> nat" where
  "ma_window content startRow startCol i j [] acc = Inr acc"
| "ma_window content startRow startCol i j ((di, dj) # ds) (sm, cnt) =
     (let ni = int i + di; nj = int j + dj
      in if in_window content startRow startCol i ni nj
         then (case neighborValue content ni nj of
                 Inl e \<Rightarrow> Inl e
               | Inr None \<Rightarrow> ma_window content startRow startCol i j ds (sm, cnt)
               | Inr (Some v) \<Rightarrow>
                   ma_window content startRow startCol i j ds (jsadd sm v, cnt + 1))
         else ma_window content startRow startCol i j ds (sm, cnt))"

definition offsets :: "int \<Rightarrow> (int \<times> int) list" where
  "offsets halfWindow =
     concat (map (\<lambda>di. map (\<lambda>dj. (di, dj)) [- halfWindow .. halfWindow])
                 [- halfWindow .. halfWindow])"

definition ma_body :: "int \<Rightarrow> nat \<Rightarrow> nat \<Rightarrow> grid \<Rightarrow> nat \<Rightarrow> nat \<Rightarrow> error + string option" where
  "ma_body halfWindow startRow startCol content i j =
     (case neighborValue content (int i) (int j) of
        Inl e \<Rightarrow> Inl e
      | Inr None \<Rightarrow> Inr None
      | Inr (Some v) \<Rightarrow>
          (case ma_window content startRow startCol i j (offsets halfWindow) (Fin 0, 0) of
             Inl e \<Rightarrow> Inl e
           | Inr (sm, cnt) \<Rightarrow>
               if 0 < cnt
               then (case toFixed (jsdiv sm (Fin (real cnt)))
                                  (max (decimals_of (content ! i ! j)) 2) of
                       Inl e \<Rightarrow> Inl e
                     | Inr t \<Rightarrow> Inr (Some t))
               else Inr None))"

definition applyMovingAverage :: "grid \<Rightarrow> int \<Rightarrow> bool \<Rightarrow> bool \<Rightarrow> error + grid" where
  "applyMovingAverage content windowSize skipFirstRow skipFirstColumn =
     (let windowSize' = (if windowSize mod 2 = 0 then windowSize + 1 else windowSize);
          halfWindow = windowSize' div 2;
          startRow = start_of skipFirstRow;
          startCol = start_of skipFirstColumn
      in run (ma_body halfWindow startRow startCol) content
             (positions content startRow startCol))"

section \<open>applyGaussianSmoothing\<close>

definition kernel_values :: "real \<Rightarrow> int \<Rightarrow> number list list" where
  "kernel_values sigma halfSize =
     map (\<lambda>i. map (\<lambda>j. jsexp (jsdiv (Fin (- real_of_int (i * i + j * j)))
                                     (Fin (2 * sigma * sigma))))
                    [- halfSize .. halfSize])
         [- halfSize .. halfSize]"

definition gaussian_kernel :: "real \<Rightarrow> int \<Rightarrow> number list list" where
  "gaussian_kernel sigma halfSize =
     (let kern = kernel_values sigma halfSize;
          kernelSum = fold (\<lambda>v s. jsadd s v) (concat kern) (Fin 0)
      in map (map (\<lambda>v. jsdiv v kernelSum)) kern)"

fun gauss_window :: "grid \<Rightarrow> nat \<Rightarrow> nat \<Rightarrow> nat \<Rightarrow> nat \<Rightarrow> int \<Rightarrow> number list list
                      \<Rightarrow> (nat \<times> nat) list \<Rightarrow> number \<times> number \<Rightarrow> error + number \<times> number" where
  "gauss_window content startRow startCol i j halfSize kern [] acc = Inr acc"
| "gauss_window content startRow startCol i j halfSize kern ((ki, kj) # ks) (sm, weightSum) =
     (let ni = int i + int ki - halfSize; nj = int j + int kj - halfSize
      in if in_window content startRow startCol i ni nj
         then (case neighborValue content ni nj of
                 Inl e \<Rightarrow> Inl e
               | Inr None \<Rightarrow>
                   gauss_window content startRow startCol i j halfSize kern ks (sm, weightSum)
               | Inr (Some v) \<Rightarrow>
                   gauss_window content startRow startCol i j halfSize kern ks
                     (jsadd sm (jsmul v (kern ! ki ! kj)), jsadd weightSum (kern ! ki ! kj)))
         else gauss_window content startRow startCol i j halfSize kern ks (sm, weightSum))"

definition gauss_body :: "int \<Rightarrow> number list list \<Rightarrow> nat \<Rightarrow> nat \<Rightarrow> grid \<Rightarrow> nat \<Rightarrow> nat
                           \<Rightarrow> error + string option" where
  "gauss_body halfSize kern startRow startCol content i j =
     (case neighborValue content (int i) (int j) of
        Inl e \<Rightarrow> Inl e
      | Inr None \<Rightarrow> Inr None
      | Inr (Some v) \<Rightarrow>
          (case gauss_window content startRow startCol i j halfSize kern
                  (positions kern 0 0) (Fin 0, Fin 0) of
             Inl e \<Rightarrow> Inl e
           | Inr (sm, weightSum) \<Rightarrow>
               if jspos weightSum
               then (case toFixed (jsdiv sm weightSum) (max (decimals_of (content ! i ! j)) 2) of
                       Inl e \<Rightarrow> Inl e
                     | Inr t \<Rightarrow> Inr (Some t))
               else Inr None))"

definition applyGaussianSmoothing :: "grid \<Rightarrow> real \<Rightarrow> bool \<Rightarrow> bool \<Rightarrow> error + grid" where
  "applyGaussianSmoothing content sigma skipFirstRow skipFirstColumn =
     (let kernelSize = \<lceil>sigma * 3\<rceil> * 2 + 1;
          halfSize = kernelSize div 2;
          kern = gaussian_kernel sigma halfSize;
          startRow = start_of skipFirstRow;
          startCol = start_of skipFirstColumn
      in run (gauss_body halfSize kern startRow startCol) content
             (positions content startRow startCol))"

section \<open>applyBilinearInterpolation\<close>

text \<open>The values pushed to \<^verbatim>\<open>neighbors\<close>: the cells above, below, left and right, in that
  order, each under its own test and only when it parses as a number.\<close>

definition bilinear_neighbors :: "grid \<Rightarrow> nat \<Rightarrow> nat \<Rightarrow> nat \<Rightarrow> nat \<Rightarrow> error + number list" where
  "bilinear_neighbors content startRow startCol i j =
     (case (if startRow < i then neighborValue content (int i - 1) (int j) else Inr None) of
        Inl e \<Rightarrow> Inl e
      | Inr up \<Rightarrow>
     (case (if int i < int (length content) - 1 then neighborValue content (int i + 1) (int j)
            else Inr None) of
        Inl e \<Rightarrow> Inl e
      | Inr down \<Rightarrow>
     (case (if startCol < j then neighborValue content (int i) (int j - 1) else Inr None) of
        Inl e \<Rightarrow> Inl e
      | Inr l \<Rightarrow>
     (case (if int j < int (length (content ! i)) - 1 then neighborValue content (int i) (int j + 1)
            else Inr None) of
        Inl e \<Rightarrow> Inl e
      | Inr r \<Rightarrow> Inr (List.map_filter (\<lambda>v. v) [up, down, l, r])))))"

definition bilinear_body :: "nat \<Rightarrow> nat \<Rightarrow> grid \<Rightarrow> nat \<Rightarrow> nat \<Rightarrow> error + string option" where
  "bilinear_body startRow startCol content i j =
     (case neighborValue content (int i) (int j) of
        Inl e \<Rightarrow> Inl e
      | Inr None \<Rightarrow> Inr None
      | Inr (Some v) \<Rightarrow>
          (case bilinear_neighbors content startRow startCol i j of
             Inl e \<Rightarrow> Inl e
           | Inr neighbors \<Rightarrow>
               if 0 < length neighbors
               then (case toFixed (jsdiv (jsadd v (fold (\<lambda>b a. jsadd a b) neighbors (Fin 0)))
                                         (Fin (real (length neighbors + 1))))
                                  (max (decimals_of (content ! i ! j)) 2) of
                       Inl e \<Rightarrow> Inl e
                     | Inr t \<Rightarrow> Inr (Some t))
               else Inr None))"

definition applyBilinearInterpolation :: "grid \<Rightarrow> bool \<Rightarrow> bool \<Rightarrow> error + grid" where
  "applyBilinearInterpolation content skipFirstRow skipFirstColumn =
     (let startRow = start_of skipFirstRow;
          startCol = start_of skipFirstColumn
      in run (bilinear_body startRow startCol) content (positions content startRow startCol))"

section \<open>autoFillBlanks\<close>

definition isEmpty :: "string option \<Rightarrow> bool" where
  "isEmpty c =
     (case c of
        None \<Rightarrow> True
      | Some s \<Rightarrow>
          if s = [] then True
          else let cleaned = trim (strip_tags s) in cleaned = [] \<or> cleaned = ''&nbsp;'')"

definition getDecimalPlaces :: "string \<Rightarrow> nat" where
  "getDecimalPlaces c =
     (let cleaned = trim (strip_tags c)
      in if CHR ''.'' \<notin> set cleaned then 0 else length (split_dot_1 cleaned))"

text \<open>\<^verbatim>\<open>findNearest(row, col, dRow, dCol)\<close> is called with the four unit steps only; they
  are the four directions here, which is what makes the \<^verbatim>\<open>while\<close> loop end.\<close>

datatype direction = Top | Bottom | Left | Right

fun dRow :: "direction \<Rightarrow> int" where
  "dRow Top = - 1" | "dRow Bottom = 1" | "dRow Left = 0" | "dRow Right = 0"

fun dCol :: "direction \<Rightarrow> int" where
  "dCol Top = 0" | "dCol Bottom = 0" | "dCol Left = - 1" | "dCol Right = 1"

text \<open>The \<^verbatim>\<open>while\<close> loop of \<^verbatim>\<open>findNearest\<close> at the cell \<open>(r, c)\<close>.  Its column bound is
  the length of the first row, \<^verbatim>\<open>content[0].length\<close>, which is read only after
  \<open>r < content.length\<close> has been found true.  A cell that is not empty and is not a
  number does not end the loop.\<close>

function findNearest_loop :: "grid \<Rightarrow> nat \<Rightarrow> nat \<Rightarrow> nat \<Rightarrow> nat \<Rightarrow> direction \<Rightarrow> int \<Rightarrow> int
                               \<Rightarrow> error + (number \<times> int \<times> nat) option" where
  "findNearest_loop content startRow startCol row col d r c =
     (if int startRow \<le> r \<and> r < int (length content) \<and>
         int startCol \<le> c \<and> c < int (length (content ! 0))
      then (case cell content r c of
              Inl e \<Rightarrow> Inl e
            | Inr t \<Rightarrow>
                (case (if \<not> isEmpty t then parseNumericValue t else None) of
                   Some val \<Rightarrow>
                     (case t of
                        None \<Rightarrow> Inl TypeError
                      | Some s \<Rightarrow>
                          Inr (Some (val, \<bar>r - int row\<bar> + \<bar>c - int col\<bar>, getDecimalPlaces s)))
                 | None \<Rightarrow>
                     findNearest_loop content startRow startCol row col d (r + dRow d) (c + dCol d)))
      else Inr None)"
  by pat_completeness auto
termination
  by (relation "measure (\<lambda>(content, startRow, startCol, row, col, d, r, c).
        case d of Top \<Rightarrow> nat (r + 1) | Bottom \<Rightarrow> nat (int (length content) - r)
                | Left \<Rightarrow> nat (c + 1) | Right \<Rightarrow> nat (int (length (content ! 0)) - c))")
     (auto split: direction.splits)

declare findNearest_loop.simps [simp del]

definition findNearest :: "grid \<Rightarrow> nat \<Rightarrow> nat \<Rightarrow> nat \<Rightarrow> nat \<Rightarrow> direction
                            \<Rightarrow> error + (number \<times> int \<times> nat) option" where
  "findNearest content startRow startCol row col d =
     findNearest_loop content startRow startCol row col d (int row + dRow d) (int col + dCol d)"

text \<open>The four searches of one blank cell, in the order top, bottom, left, right, and the
  entries pushed to \<^verbatim>\<open>values\<close>, \<^verbatim>\<open>weights\<close> and \<^verbatim>\<open>decimalCounts\<close>.\<close>

definition found_values :: "grid \<Rightarrow> nat \<Rightarrow> nat \<Rightarrow> nat \<Rightarrow> nat \<Rightarrow> error + (number \<times> int \<times> nat) list" where
  "found_values content startRow startCol i j =
     (case findNearest content startRow startCol i j Top of
        Inl e \<Rightarrow> Inl e
      | Inr t \<Rightarrow>
     (case findNearest content startRow startCol i j Bottom of
        Inl e \<Rightarrow> Inl e
      | Inr b \<Rightarrow>
     (case findNearest content startRow startCol i j Left of
        Inl e \<Rightarrow> Inl e
      | Inr l \<Rightarrow>
     (case findNearest content startRow startCol i j Right of
        Inl e \<Rightarrow> Inl e
      | Inr r \<Rightarrow> Inr (List.map_filter (\<lambda>v. v) [t, b, l, r])))))"

definition interpolated :: "(number \<times> int \<times> nat) list \<Rightarrow> number" where
  "interpolated found =
     (let values = map fst found;
          weights = map (\<lambda>(v, distance, decimals). jsdiv (Fin 1) (Fin (real_of_int distance))) found;
          totalWeight = fold (\<lambda>b a. jsadd a b) weights (Fin 0)
      in jsdiv (fold (\<lambda>(val, w) sm. jsadd sm (jsmul val w)) (zip values weights) (Fin 0))
               totalWeight)"

definition fill_body :: "nat \<Rightarrow> nat \<Rightarrow> grid \<Rightarrow> nat \<Rightarrow> nat \<Rightarrow> error + string option" where
  "fill_body startRow startCol content i j =
     (case cell content (int i) (int j) of
        Inl e \<Rightarrow> Inl e
      | Inr t \<Rightarrow>
          if \<not> isEmpty t then Inr None
          else (case found_values content startRow startCol i j of
                  Inl e \<Rightarrow> Inl e
                | Inr found \<Rightarrow>
                    if 0 < length found
                    then (case toFixed (interpolated found)
                                       (fold max (map (\<lambda>(v, distance, decimals). decimals) found) 1) of
                            Inl e \<Rightarrow> Inl e
                          | Inr t \<Rightarrow> Inr (Some t))
                    else Inr None))"

definition autoFillBlanks :: "grid \<Rightarrow> bool \<Rightarrow> bool \<Rightarrow> error + grid" where
  "autoFillBlanks content skipFirstRow skipFirstColumn =
     (let startRow = start_of skipFirstRow;
          startCol = start_of skipFirstColumn
      in run (fill_body startRow startCol) content (positions content startRow startCol))"

section \<open>Gradient colours\<close>

text \<open>A colour stop \<^verbatim>\<open>{ value, color: [r, g, b] }\<close> and a scheme \<^verbatim>\<open>{ name, colors }\<close>.
  The normalized value, the bounds of the data and the stop positions are finite
  numbers, computed exactly.\<close>

record color_stop =
  stop_value :: real
  stop_color :: "int \<times> int \<times> int"

record color_scheme =
  scheme_name :: string
  colors :: "color_stop list"

definition THERMAL :: color_scheme where
  "THERMAL = \<lparr> scheme_name = ''Thermal'', colors =
     [\<lparr> stop_value = 0, stop_color = (0, 0, 255) \<rparr>,
      \<lparr> stop_value = 0.25, stop_color = (0, 255, 255) \<rparr>,
      \<lparr> stop_value = 0.5, stop_color = (0, 255, 0) \<rparr>,
      \<lparr> stop_value = 0.75, stop_color = (255, 255, 0) \<rparr>,
      \<lparr> stop_value = 1, stop_color = (255, 0, 0) \<rparr>] \<rparr>"

definition GRAYSCALE :: color_scheme where
  "GRAYSCALE = \<lparr> scheme_name = ''Grayscale'', colors =
     [\<lparr> stop_value = 0, stop_color = (255, 255, 255) \<rparr>,
      \<lparr> stop_value = 1, stop_color = (0, 0, 0) \<rparr>] \<rparr>"

definition VIRIDIS :: color_scheme where
  "VIRIDIS = \<lparr> scheme_name = ''Viridis'', colors =
     [\<lparr> stop_value = 0, stop_color = (68, 1, 84) \<rparr>,
      \<lparr> stop_value = 0.25, stop_color = (59, 82, 139) \<rparr>,
      \<lparr> stop_value = 0.5, stop_color = (33, 145, 140) \<rparr>,
      \<lparr> stop_value = 0.75, stop_color = (94, 201, 98) \<rparr>,
      \<lparr> stop_value = 1, stop_color = (253, 231, 37) \<rparr>] \<rparr>"

definition AUTOMOTIVE :: color_scheme where
  "AUTOMOTIVE = \<lparr> scheme_name = ''Automotive'', colors =
     [\<lparr> stop_value = 0, stop_color = (30, 30, 180) \<rparr>,
      \<lparr> stop_value = 0.2, stop_color = (60, 120, 220) \<rparr>,
      \<lparr> stop_value = 0.4, stop_color = (100, 200, 100) \<rparr>,
      \<lparr> stop_value = 0.6, stop_color = (255, 200, 60) \<rparr>,
      \<lparr> stop_value = 0.8, stop_color = (255, 120, 30) \<rparr>,
      \<lparr> stop_value = 1, stop_color = (220, 20, 20) \<rparr>] \<rparr>"

definition COLOR_SCHEMES :: "color_scheme list" where
  "COLOR_SCHEMES = [THERMAL, GRAYSCALE, VIRIDIS, AUTOMOTIVE]"

text \<open>\<^verbatim>\<open>Math.round\<close> rounds to the nearest integer, a half upwards.\<close>

definition Math_round :: "real \<Rightarrow> int" where
  "Math_round x = \<lfloor>x + 1 / 2\<rfloor>"

definition interpolateColor :: "int \<times> int \<times> int \<Rightarrow> int \<times> int \<times> int \<Rightarrow> real \<Rightarrow> int \<times> int \<times> int" where
  "interpolateColor color1 color2 factor =
     (case (color1, color2) of
        ((r1, g1, b1), (r2, g2, b2)) \<Rightarrow>
          (Math_round (real_of_int r1 + real_of_int (r2 - r1) * factor),
           Math_round (real_of_int g1 + real_of_int (g2 - g1) * factor),
           Math_round (real_of_int b1 + real_of_int (b2 - b1) * factor)))"

text \<open>The loop that looks for the first pair of neighbouring stops around the value.\<close>

fun find_stops :: "real \<Rightarrow> color_stop list \<Rightarrow> (color_stop \<times> color_stop) option" where
  "find_stops v (a # b # rest) =
     (if stop_value a \<le> v \<and> v \<le> stop_value b then Some (a, b) else find_stops v (b # rest))"
| "find_stops v _ = None"

text \<open>The channels \<^verbatim>\<open>rgb\<close> computed by \<^verbatim>\<open>getColorForValue\<close>.  With no stop at all,
  \<^verbatim>\<open>upperStop.value\<close> is read from \<^verbatim>\<open>undefined\<close>.\<close>

definition color_channels :: "real \<Rightarrow> color_scheme \<Rightarrow> error + int \<times> int \<times> int" where
  "color_channels normalizedValue colorScheme =
     (case colors colorScheme of
        [] \<Rightarrow> Inl TypeError
      | c # cs \<Rightarrow>
          let v = max 0 (min 1 normalizedValue);
              (lowerStop, upperStop) =
                 (case find_stops v (c # cs) of
                    Some p \<Rightarrow> p
                  | None \<Rightarrow> (c, last (c # cs)));
              range = stop_value upperStop - stop_value lowerStop;
              factor = (if range = 0 then 0 else (v - stop_value lowerStop) / range)
          in Inr (interpolateColor (stop_color lowerStop) (stop_color upperStop) factor))"

text \<open>An integer in a template literal.\<close>

definition show_int :: "int \<Rightarrow> string" where
  "show_int n = (if n < 0 then CHR ''-'' # digits_of (- n) else digits_of n)"

definition rgb_string :: "int \<times> int \<times> int \<Rightarrow> string" where
  "rgb_string rgb =
     (case rgb of (r, g, b) \<Rightarrow>
        ''rgb('' @ show_int r @ '', '' @ show_int g @ '', '' @ show_int b @ '')'')"

definition getColorForValue :: "real \<Rightarrow> color_scheme \<Rightarrow> error + string" where
  "getColorForValue normalizedValue colorScheme =
     (case color_channels normalizedValue colorScheme of
        Inl e \<Rightarrow> Inl e
      | Inr rgb \<Rightarrow> Inr (rgb_string rgb))"




section \<open>Notions used to state the properties\<close>

text \<open>The number in the cell \<open>(ni, nj)\<close>, if the table has such a cell and it parses.\<close>

definition numeric_at :: "grid \<Rightarrow> int \<Rightarrow> int \<Rightarrow> number option" where
  "numeric_at content ni nj =
     (if 0 \<le> ni \<and> ni < int (length content) \<and> 0 \<le> nj \<and> nj < int (length (content ! nat ni))
      then parseNumericValue (Some (content ! nat ni ! nat nj))
      else None)"

text \<open>The cells of the mask: row \<open>i\<close> from \<open>startRow\<close> on, column \<open>j\<close> of row \<open>i\<close> from
  \<open>startCol\<close> on.\<close>

definition in_mask :: "grid \<Rightarrow> nat \<Rightarrow> nat \<Rightarrow> nat \<Rightarrow> nat \<Rightarrow> bool" where
  "in_mask content startRow startCol i j =
     (startRow \<le> i \<and> i < length content \<and> startCol \<le> j \<and> j < length (content ! i))"

text \<open>The numbers a window loop adds up: for each offset in turn, the neighbour's number
  if the neighbour passes the window test and parses.\<close>

definition window_values :: "grid \<Rightarrow> nat \<Rightarrow> nat \<Rightarrow> nat \<Rightarrow> nat \<Rightarrow> (int \<times> int) list \<Rightarrow> number list" where
  "window_values content startRow startCol i j ds =
     List.map_filter
       (\<lambda>(di, dj). if in_window content startRow startCol i (int i + di) (int j + dj)
                    then numeric_at content (int i + di) (int j + dj) else None) ds"







text \<open>The number of decimals of a cell as the parser contract of the specification words
  it: the length of what follows the first dot of the text without its markup, 0 when
  that text has no dot.\<close>

definition decimalPlaces_spec :: "string \<Rightarrow> nat" where
  "decimalPlaces_spec c =
     (let t = strip_tags c
      in if CHR ''.'' \<in> set t then length (tl (dropWhile (\<lambda>x. x \<noteq> CHR ''.'') t)) else 0)"

text \<open>The number of characters between the first dot of a text and its next dot (or its
  end), 0 when the text has no dot.\<close>

definition decimals_between :: "string \<Rightarrow> nat" where
  "decimals_between t = (if CHR ''.'' \<in> set t then length (split_dot_1 t) else 0)"

text \<open>Whether one of the tags that \<open>strip_tags\<close> removes contains a dot.\<close>

function dot_in_tag :: "string \<Rightarrow> bool" where
  "dot_in_tag [] = False"
| "dot_in_tag (c # cs) =
     (if c = CHR ''<'' \<and> CHR ''>'' \<in> set cs
      then CHR ''.'' \<in> set (takeWhile (\<lambda>x. x \<noteq> CHR ''>'') cs)
           \<or> dot_in_tag (tl (dropWhile (\<lambda>x. x \<noteq> CHR ''>'') cs))
      else dot_in_tag cs)"
  by pat_completeness auto
termination
proof (relation "measure length")
  fix c :: char and cs :: string
  have "length (tl (dropWhile (\<lambda>x. x \<noteq> CHR ''>'') cs)) \<le> length cs"
    using length_dropWhile_le [of "\<lambda>x. x \<noteq> CHR ''>''" cs] by simp
  then show "(tl (dropWhile (\<lambda>x. x \<noteq> CHR ''>'') cs), c # cs) \<in> measure length"
    by simp
qed simp_all

text \<open>The value each smoothing operation passes to \<^verbatim>\<open>toFixed\<close> for the cell \<open>(i, j)\<close>.\<close>

definition ma_value :: "int \<Rightarrow> nat \<Rightarrow> nat \<Rightarrow> grid \<Rightarrow> nat \<Rightarrow> nat \<Rightarrow> number" where
  "ma_value halfWindow startRow startCol content i j =
     (case ma_window content startRow startCol i j (offsets halfWindow) (Fin 0, 0) of
        Inl e \<Rightarrow> NaN
      | Inr (sm, cnt) \<Rightarrow> jsdiv sm (Fin (real cnt)))"

definition gauss_value :: "int \<Rightarrow> number list list \<Rightarrow> nat \<Rightarrow> nat \<Rightarrow> grid \<Rightarrow> nat \<Rightarrow> nat \<Rightarrow> number" where
  "gauss_value halfSize kern startRow startCol content i j =
     (case gauss_window content startRow startCol i j halfSize kern (positions kern 0 0)
             (Fin 0, Fin 0) of
        Inl e \<Rightarrow> NaN
      | Inr (sm, weightSum) \<Rightarrow> jsdiv sm weightSum)"

definition bilinear_value :: "nat \<Rightarrow> nat \<Rightarrow> grid \<Rightarrow> nat \<Rightarrow> nat \<Rightarrow> number" where
  "bilinear_value startRow startCol content i j =
     (case (parseNumericValue (Some (content ! i ! j)),
            bilinear_neighbors content startRow startCol i j) of
        (Some v, Inr neighbors) \<Rightarrow>
          jsdiv (jsadd v (fold (\<lambda>b a. jsadd a b) neighbors (Fin 0)))
                (Fin (real (length neighbors + 1)))
      | _ \<Rightarrow> NaN)"

text \<open>The text of the cell \<open>(r, c)\<close>, \<open>None\<close> where the table has no such cell.\<close>

definition text_at :: "grid \<Rightarrow> int \<Rightarrow> int \<Rightarrow> string option" where
  "text_at content r c =
     (if 0 \<le> r \<and> r < int (length content) \<and> 0 \<le> c \<and> c < int (length (content ! nat r))
      then Some (content ! nat r ! nat c) else None)"

text \<open>The area a directional search of \<^verbatim>\<open>autoFillBlanks\<close> stays in: the rows of the mask,
  and the columns of the mask that the first row has.\<close>

definition in_area :: "grid \<Rightarrow> nat \<Rightarrow> nat \<Rightarrow> int \<Rightarrow> int \<Rightarrow> bool" where
  "in_area content startRow startCol r c =
     (int startRow \<le> r \<and> r < int (length content) \<and>
      int startCol \<le> c \<and> c < int (length (content ! 0)))"

text \<open>A cell a search stops at: not blank, and a number.\<close>

definition is_source :: "grid \<Rightarrow> int \<Rightarrow> int \<Rightarrow> bool" where
  "is_source content r c =
     (\<not> isEmpty (text_at content r c) \<and> parseNumericValue (text_at content r c) \<noteq> None)"

text \<open>What a search returns when it stops at the cell \<open>(r, c)\<close>, \<open>k\<close> steps away.\<close>

definition found_at :: "grid \<Rightarrow> int \<Rightarrow> int \<Rightarrow> int \<Rightarrow> number \<times> int \<times> nat" where
  "found_at content r c k =
     (the (parseNumericValue (text_at content r c)), k,
      getDecimalPlaces (the (text_at content r c)))"


text \<open>Three channels, each between 0 and 255.\<close>

definition channel_ok :: "int \<times> int \<times> int \<Rightarrow> bool" where
  "channel_ok c = (case c of (r, g, b) \<Rightarrow> 0 \<le> r \<and> r \<le> 255 \<and> 0 \<le> g \<and> g \<le> 255 \<and> 0 \<le> b \<and> b \<le> 255)"

section \<open>The operations on a heap of arrays\<close>

text \<open>
  In JavaScript a table is an array of references to row arrays, and \<^verbatim>\<open>result[i][j] = t\<close>
  changes a row array in place.  To say that the input table is left alone, arrays live
  in a heap here: an address is an index into the list of allocated objects, a row is an
  array of texts, a table an array of row addresses.
\<close>

datatype obj = Row "string list" | Table "nat list"

type_synonym heap = "obj list"

definition alloc :: "heap \<Rightarrow> obj \<Rightarrow> nat \<times> heap" where
  "alloc h ob = (length h, h @ [ob])"

definition row_at :: "heap \<Rightarrow> nat \<Rightarrow> string list" where
  "row_at h a = (case h ! a of Row r \<Rightarrow> r | Table t \<Rightarrow> [])"

definition table_at :: "heap \<Rightarrow> nat \<Rightarrow> nat list" where
  "table_at h a = (case h ! a of Table t \<Rightarrow> t | Row r \<Rightarrow> [])"

text \<open>The address \<open>a\<close> holds a table whose entries are addresses of rows.\<close>

definition well_formed :: "heap \<Rightarrow> nat \<Rightarrow> bool" where
  "well_formed h a =
     (a < length h \<and>
      (case h ! a of
         Table t \<Rightarrow> list_all (\<lambda>ra. ra < length h \<and> (case h ! ra of Row r \<Rightarrow> True | Table t' \<Rightarrow> False)) t
       | Row r \<Rightarrow> False))"

text \<open>The table at an address, as the texts a program reads through it.\<close>

definition read_grid :: "heap \<Rightarrow> nat \<Rightarrow> grid" where
  "read_grid h a = map (row_at h) (table_at h a)"

text \<open>\<^verbatim>\<open>content.map((row) => [...row])\<close>: a new array for every row, and a new array of
  their addresses.\<close>

fun copy_rows :: "heap \<Rightarrow> string list list \<Rightarrow> nat list \<times> heap" where
  "copy_rows h [] = ([], h)"
| "copy_rows h (r # rs) =
     (case alloc h (Row r) of (a, h1) \<Rightarrow>
        (case copy_rows h1 rs of (as, h2) \<Rightarrow> (a # as, h2)))"

definition copy_grid :: "heap \<Rightarrow> nat \<Rightarrow> nat \<times> heap" where
  "copy_grid h content =
     (case copy_rows h (read_grid h content) of (as, h1) \<Rightarrow> alloc h1 (Table as))"

text \<open>\<^verbatim>\<open>result[i][j] = t\<close>.\<close>

definition store_cell :: "heap \<Rightarrow> nat \<Rightarrow> nat \<Rightarrow> nat \<Rightarrow> string \<Rightarrow> heap" where
  "store_cell h result i j t =
     (let ra = table_at h result ! i in h[ra := Row ((row_at h ra)[j := t])])"

text \<open>One turn of the loop body on the heap.  The body reads \<^verbatim>\<open>content\<close> through the
  heap as it is at that moment.\<close>

fun step_heap :: "(grid \<Rightarrow> nat \<Rightarrow> nat \<Rightarrow> error + string option) \<Rightarrow> nat \<Rightarrow> nat \<Rightarrow> nat \<times> nat
                    \<Rightarrow> error + heap \<Rightarrow> error + heap" where
  "step_heap body content result (i, j) (Inl e) = Inl e"
| "step_heap body content result (i, j) (Inr h) =
     (case body (read_grid h content) i j of
        Inl e \<Rightarrow> Inl e
      | Inr None \<Rightarrow> Inr h
      | Inr (Some t) \<Rightarrow> Inr (store_cell h result i j t))"

text \<open>An operation on the heap, visiting the cells in the order \<open>ps\<close>: it returns the
  address of \<^verbatim>\<open>result\<close> and the heap it leaves.\<close>

definition run_heap :: "(grid \<Rightarrow> nat \<Rightarrow> nat \<Rightarrow> error + string option) \<Rightarrow> heap \<Rightarrow> nat
                         \<Rightarrow> (nat \<times> nat) list \<Rightarrow> error + nat \<times> heap" where
  "run_heap body h content ps =
     (case copy_grid h content of (result, h1) \<Rightarrow>
        (case fold (step_heap body content result) ps (Inr h1) of
           Inl e \<Rightarrow> Inl e
         | Inr h2 \<Rightarrow> Inr (result, h2)))"

datatype operation = MovingAverage int | Gaussian real | Bilinear | FillBlanks

text \<open>The loop body of each operation, as the operation sets it up.\<close>

definition body_of :: "operation \<Rightarrow> bool \<Rightarrow> bool \<Rightarrow> grid \<Rightarrow> nat \<Rightarrow> nat \<Rightarrow> error + string option" where
  "body_of opn skipFirstRow skipFirstColumn =
     (case opn of
        MovingAverage windowSize \<Rightarrow>
          ma_body ((if windowSize mod 2 = 0 then windowSize + 1 else windowSize) div 2)
            (start_of skipFirstRow) (start_of skipFirstColumn)
      | Gaussian sigma \<Rightarrow>
          gauss_body ((\<lceil>sigma * 3\<rceil> * 2 + 1) div 2)
            (gaussian_kernel sigma ((\<lceil>sigma * 3\<rceil> * 2 + 1) div 2))
            (start_of skipFirstRow) (start_of skipFirstColumn)
      | Bilinear \<Rightarrow> bilinear_body (start_of skipFirstRow) (start_of skipFirstColumn)
      | FillBlanks \<Rightarrow> fill_body (start_of skipFirstRow) (start_of skipFirstColumn))"

definition apply_operation :: "operation \<Rightarrow> grid \<Rightarrow> bool \<Rightarrow> bool \<Rightarrow> error + grid" where
  "apply_operation opn content skipFirstRow skipFirstColumn =
     (case opn of
        MovingAverage windowSize \<Rightarrow> applyMovingAverage content windowSize skipFirstRow skipFirstColumn
      | Gaussian sigma \<Rightarrow> applyGaussianSmoothing content sigma skipFirstRow skipFirstColumn
      | Bilinear \<Rightarrow> applyBilinearInterpolation content skipFirstRow skipFirstColumn
      | FillBlanks \<Rightarrow> autoFillBlanks content skipFirstRow skipFirstColumn)"

text \<open>The operation on the heap, with the cells of the mask visited in the order \<open>ps\<close>.\<close>

definition apply_on_heap :: "operation \<Rightarrow> heap \<Rightarrow> nat \<Rightarrow> bool \<Rightarrow> bool \<Rightarrow> (nat \<times> nat) list
                              \<Rightarrow> error + nat \<times> heap" where
  "apply_on_heap opn h content skipFirstRow skipFirstColumn ps =
     run_heap (body_of opn skipFirstRow skipFirstColumn) h content ps"

text \<open>The heap after an operation that was given the heap \<open>h\<close> and computed the table
  \<open>r\<close>: the objects of \<open>h\<close>, then the rows of \<open>r\<close>, then the table of their addresses.\<close>

definition heap_with :: "heap \<Rightarrow> grid \<Rightarrow> heap" where
  "heap_with h r = h @ map Row r @ [Table [length h ..< length h + length r]]"

section \<open>The loop over the mask\<close>

lemma fold_step_Inl: "fold (step body content) ps (Inl e) = Inl e"
  by (induction ps) auto

lemma write_cell_length: "length (write_cell r i j t) = length r"
  by (simp add: write_cell_def)

lemma write_cell_row_length: "length (write_cell r i j t ! k) = length (r ! k)"
  by (cases "i < length r"; cases "k = i") (simp_all add: write_cell_def list_update_beyond)

lemma write_cell_nth:
  "i < length r \<Longrightarrow> j < length (r ! i) \<Longrightarrow>
   write_cell r i' j' t ! i ! j = (if i' = i \<and> j' = j then t else r ! i ! j)"
  by (cases "i' = i"; cases "j' = j") (simp_all add: write_cell_def)

lemma fold_step_shape:
  "fold (step body content) ps (Inr r) = Inr r' \<Longrightarrow>
   length r' = length r \<and> (\<forall>k. length (r' ! k) = length (r ! k))"
proof (induction ps arbitrary: r)
  case Nil
  then show ?case by simp
next
  case (Cons p ps)
  obtain i j where p: "p = (i, j)" by (cases p)
  show ?case
  proof (cases "body content i j")
    case (Inl e)
    with Cons.prems p show ?thesis by (simp add: fold_step_Inl)
  next
    case (Inr x)
    show ?thesis
    proof (cases x)
      case None
      with Cons Inr p show ?thesis by simp
    next
      case (Some t)
      with Cons.prems Inr p have "fold (step body content) ps (Inr (write_cell r i j t)) = Inr r'"
        by simp
      from Cons.IH [OF this] show ?thesis
        by (simp add: write_cell_length write_cell_row_length)
    qed
  qed
qed

lemma fold_step_nth:
  "fold (step body content) ps (Inr r) = Inr r' \<Longrightarrow> i < length r \<Longrightarrow> j < length (r ! i) \<Longrightarrow>
   r' ! i ! j =
     (if (i, j) \<in> set ps
      then (case body content i j of Inr (Some t) \<Rightarrow> t | _ \<Rightarrow> r ! i ! j)
      else r ! i ! j)"
proof (induction ps arbitrary: r)
  case Nil
  then show ?case by simp
next
  case (Cons p ps)
  obtain i' j' where p: "p = (i', j')" by (cases p)
  show ?case
  proof (cases "body content i' j'")
    case (Inl e)
    with Cons.prems p show ?thesis by (simp add: fold_step_Inl)
  next
    case (Inr x)
    show ?thesis
    proof (cases x)
      case None
      with Cons.prems Inr p have f: "fold (step body content) ps (Inr r) = Inr r'"
        by simp
      from Cons.IH [OF f Cons.prems(2,3)] None Inr p show ?thesis
        by auto
    next
      case (Some t)
      with Cons.prems Inr p have f: "fold (step body content) ps (Inr (write_cell r i' j' t)) = Inr r'"
        by simp
      have l: "i < length (write_cell r i' j' t)" "j < length (write_cell r i' j' t ! i)"
        using Cons.prems(2,3) by (simp_all add: write_cell_length write_cell_row_length)
      from Cons.IH [OF f l] Some Inr p Cons.prems(2,3) show ?thesis
        by (auto simp: write_cell_nth split: sum.splits option.splits)
    qed
  qed
qed

lemma fold_step_Inr:
  "(\<And>i j. (i, j) \<in> set ps \<Longrightarrow> \<exists>x. body content i j = Inr x) \<Longrightarrow>
   \<exists>r'. fold (step body content) ps (Inr r) = Inr r'"
proof (induction ps arbitrary: r)
  case Nil
  then show ?case by simp
next
  case (Cons p ps)
  obtain i j where p: "p = (i, j)" by (cases p)
  from Cons.prems [of i j] p obtain x where x: "body content i j = Inr x" by auto
  have rest: "\<And>r. \<exists>r'. fold (step body content) ps (Inr r) = Inr r'"
    using Cons.IH Cons.prems by simp
  show ?case using p x rest by (cases x) simp_all
qed

lemma fold_step_error:
  "fold (step body content) ps (Inr r) = Inl e \<Longrightarrow>
   \<exists>i j. (i, j) \<in> set ps \<and> body content i j = Inl e"
proof (induction ps arbitrary: r)
  case Nil
  then show ?case by simp
next
  case (Cons p ps)
  obtain i j where p: "p = (i, j)" by (cases p)
  show ?case
  proof (cases "body content i j")
    case (Inl e')
    with Cons.prems p show ?thesis by (auto simp: fold_step_Inl)
  next
    case (Inr x)
    with Cons.prems p obtain r2 where "fold (step body content) ps (Inr r2) = Inl e"
      by (cases x) auto
    from Cons.IH [OF this] show ?thesis by auto
  qed
qed

lemma fold_step_raises:
  "(i, j) \<in> set ps \<Longrightarrow> body content i j = Inl e \<Longrightarrow>
   \<exists>e'. fold (step body content) ps (Inr r) = Inl e'"
proof (induction ps arbitrary: r)
  case Nil
  then show ?case by simp
next
  case (Cons p ps)
  obtain i' j' where p: "p = (i', j')" by (cases p)
  show ?case
  proof (cases "body content i' j'")
    case (Inl e')
    with p show ?thesis by (simp add: fold_step_Inl)
  next
    case (Inr x)
    with Cons.prems p have "(i, j) \<in> set ps" by auto
    from Cons.IH [OF this Cons.prems(2)] Inr p show ?thesis
      by (cases x) simp_all
  qed
qed

lemma in_positions:
  "(i, j) \<in> set (positions content startRow startCol) \<longleftrightarrow>
   startRow \<le> i \<and> i < length content \<and> startCol \<le> j \<and> j < length (content ! i)"
  by (force simp: positions_def)

text \<open>What \<open>run\<close> returns, cell by cell.\<close>

lemma run_shape:
  "run body content ps = Inr r \<Longrightarrow>
   length r = length content \<and> (\<forall>k. length (r ! k) = length (content ! k))"
  unfolding run_def using fold_step_shape [of body content ps content r] by simp

lemma run_nth:
  "run body content ps = Inr r \<Longrightarrow> i < length content \<Longrightarrow> j < length (content ! i) \<Longrightarrow>
   r ! i ! j =
     (if (i, j) \<in> set ps
      then (case body content i j of Inr (Some t) \<Rightarrow> t | _ \<Rightarrow> content ! i ! j)
      else content ! i ! j)"
  unfolding run_def using fold_step_nth [of body content ps content r i j] by simp

lemma run_Inr:
  "(\<And>i j. (i, j) \<in> set ps \<Longrightarrow> \<exists>x. body content i j = Inr x) \<Longrightarrow>
   \<exists>r. run body content ps = Inr r"
  unfolding run_def by (rule fold_step_Inr)

lemma run_error:
  "run body content ps = Inl e \<Longrightarrow> \<exists>i j. (i, j) \<in> set ps \<and> body content i j = Inl e"
  unfolding run_def by (rule fold_step_error)

lemma run_raises:
  "(i, j) \<in> set ps \<Longrightarrow> body content i j = Inl e \<Longrightarrow> \<exists>e'. run body content ps = Inl e'"
  unfolding run_def by (rule fold_step_raises)

lemma run_touches_nothing:
  assumes "\<And>i j. (i, j) \<in> set ps \<Longrightarrow> body content i j = Inr None"
  shows "run body content ps = Inr content"
proof -
  have "fold (step body content) ps (Inr r) = Inr r" for r
    using assms by (induction ps arbitrary: r) auto
  then show ?thesis by (simp add: run_def)
qed

section \<open>Reading cells\<close>

lemma cell_row:
  "0 \<le> r \<Longrightarrow> r < int (length content) \<Longrightarrow>
   cell content r c =
     Inr (if 0 \<le> c \<and> c < int (length (content ! nat r)) then Some (content ! nat r ! nat c)
          else None)"
  by (simp add: cell_def)

lemma neighborValue_row:
  "0 \<le> r \<Longrightarrow> r < int (length content) \<Longrightarrow>
   neighborValue content r c = Inr (numeric_at content r c)"
  by (simp add: neighborValue_def cell_row numeric_at_def parseNumericValue_def)

lemma neighborValue_in_window:
  "in_window content startRow startCol i ni nj \<Longrightarrow>
   neighborValue content ni nj = Inr (numeric_at content ni nj)"
  by (rule neighborValue_row) (simp_all add: in_window_def)

lemma numeric_at_cell:
  "i < length content \<Longrightarrow> j < length (content ! i) \<Longrightarrow>
   numeric_at content (int i) (int j) = parseNumericValue (Some (content ! i ! j))"
  by (simp add: numeric_at_def)

section \<open>What the operations write\<close>


lemma run_cell:
  assumes "run body content (positions content startRow startCol) = Inr r"
    and "in_mask content startRow startCol i j"
  shows "\<exists>x. body content i j = Inr x \<and> r ! i ! j = (case x of Some t \<Rightarrow> t | None \<Rightarrow> content ! i ! j)"
proof -
  have m: "(i, j) \<in> set (positions content startRow startCol)"
    using assms(2) by (simp add: in_positions in_mask_def)
  have "\<not> (\<exists>e. body content i j = Inl e)"
    using run_raises [OF m, of body content] assms(1) by auto
  then obtain x where x: "body content i j = Inr x"
    by (cases "body content i j") auto
  have "i < length content" "j < length (content ! i)"
    using assms(2) by (simp_all add: in_mask_def)
  from run_nth [OF assms(1) this] m x show ?thesis
    by (cases x) simp_all
qed

lemma run_outside:
  assumes "run body content (positions content startRow startCol) = Inr r"
    and "i < length content" and "j < length (content ! i)"
    and "\<not> in_mask content startRow startCol i j"
  shows "r ! i ! j = content ! i ! j"
  using run_nth [OF assms(1,2,3)] assms(4) by (auto simp: in_positions in_mask_def)

lemma ma_window_eq:
  "i < length content \<Longrightarrow>
   ma_window content startRow startCol i j ds (sm, cnt) =
     Inr (sm + sum_list (window_values content startRow startCol i j ds),
          cnt + length (window_values content startRow startCol i j ds))"
proof (induction ds arbitrary: sm cnt)
  case Nil
  then show ?case by (simp add: window_values_def List.map_filter_simps)
next
  case (Cons d ds)
  obtain di dj where d: "d = (di, dj)" by (cases d)
  show ?case
  proof (cases "in_window content startRow startCol i (int i + di) (int j + dj)")
    case True
    note nv = neighborValue_in_window [OF True]
    show ?thesis
    proof (cases "numeric_at content (int i + di) (int j + dj)")
      case None
      with True nv d Cons show ?thesis
        by (simp add: window_values_def List.map_filter_simps)
    next
      case (Some v)
      with True nv d Cons show ?thesis
        by (simp add: window_values_def List.map_filter_simps plus_number_def [symmetric] add.assoc)
    qed
  next
    case False
    with d Cons show ?thesis
      by (simp add: window_values_def List.map_filter_simps)
  qed
qed


lemma centre_in_window:
  "in_mask content startRow startCol i j \<Longrightarrow> in_window content startRow startCol i (int i) (int j)"
  by (simp add: in_mask_def in_window_def)



section \<open>Degenerate smoothing parameters\<close>


lemma ma_body_negative:
  assumes "h < 0" and "in_mask content startRow startCol i j"
  shows "ma_body h startRow startCol content i j = Inr None"
proof -
  have b: "i < length content" using assms(2) by (simp add: in_mask_def)
  have "offsets h = []" using assms(1) by (simp add: offsets_def)
  then show ?thesis
    using b by (simp add: ma_body_def neighborValue_row split: option.splits)
qed

lemma positions_empty_kernel: "positions [] a b = []"
  by (simp add: positions_def)

lemma gauss_body_no_kernel:
  assumes "in_mask content startRow startCol i j"
  shows "gauss_body h [] startRow startCol content i j = Inr None"
proof -
  have b: "i < length content" using assms by (simp add: in_mask_def)
  show ?thesis
    using b by (simp add: gauss_body_def neighborValue_row positions_empty_kernel split: option.splits)
qed

lemma gaussian_kernel_negative: "h < 0 \<Longrightarrow> gaussian_kernel sigma h = []"
  by (simp add: gaussian_kernel_def kernel_values_def)

lemma gaussian_kernel_zero: "gaussian_kernel 0 0 = [[NaN]]"
  by (simp add: gaussian_kernel_def kernel_values_def)

lemma jsadd_NaN_right: "jsadd x NaN = NaN"
  by (cases x) simp_all

lemma jsmul_NaN_right: "jsmul x NaN = NaN"
  by (cases x) simp_all

lemma gauss_body_NaN_kernel:
  assumes "in_mask content startRow startCol i j"
  shows "gauss_body 0 [[NaN]] startRow startCol content i j = Inr None"
proof -
  have b: "i < length content" "j < length (content ! i)"
    using assms by (simp_all add: in_mask_def)
  have p: "positions [[NaN]] 0 0 = [(0, 0)]"
    by (simp add: positions_def)
  have w: "in_window content startRow startCol i (int i) (int j)"
    using assms by (rule centre_in_window)
  show ?thesis
    using b w
    by (simp add: gauss_body_def p neighborValue_row jsadd_NaN_right jsmul_NaN_right
        split: option.splits)
qed

lemma moving_average_even_window:
  assumes "windowSize mod 2 = 0"
  shows "applyMovingAverage content windowSize skipFirstRow skipFirstColumn
         = applyMovingAverage content (windowSize + 1) skipFirstRow skipFirstColumn"
proof -
  from assms have "(windowSize + 1) mod 2 \<noteq> 0" by presburger
  with assms show ?thesis by (simp add: applyMovingAverage_def)
qed

lemma moving_average_negative_window:
  assumes neg: "windowSize < 0"
  shows "applyMovingAverage content windowSize skipFirstRow skipFirstColumn = Inr content"
proof -
  define h where "h = (if windowSize mod 2 = 0 then windowSize + 1 else windowSize) div 2"
  have "h < 0" using neg unfolding h_def by (auto split: if_splits)
  then have "run (ma_body h (start_of skipFirstRow) (start_of skipFirstColumn)) content
               (positions content (start_of skipFirstRow) (start_of skipFirstColumn)) = Inr content"
    by (intro run_touches_nothing ma_body_negative) (simp_all add: in_positions in_mask_def)
  then show ?thesis
    by (simp add: applyMovingAverage_def Let_def h_def)
qed

lemma gaussian_degenerate_sigma:
  assumes s: "sigma = 0 \<or> sigma * 3 \<le> - 1"
  shows "applyGaussianSmoothing content sigma skipFirstRow skipFirstColumn = Inr content"
proof -
  define h where "h = (\<lceil>sigma * 3\<rceil> * 2 + 1) div 2"
  have body: "gauss_body h (gaussian_kernel sigma h) (start_of skipFirstRow)
                (start_of skipFirstColumn) content i j = Inr None"
    if "in_mask content (start_of skipFirstRow) (start_of skipFirstColumn) i j" for i j
  proof (cases "sigma = 0")
    case True
    then have "h = 0" by (simp add: h_def)
    with True that show ?thesis
      by (simp add: gaussian_kernel_zero gauss_body_NaN_kernel)
  next
    case False
    with s have "sigma * 3 \<le> - 1" by simp
    then have "\<lceil>sigma * 3\<rceil> \<le> - 1" by (simp add: ceiling_le_iff)
    then have "h < 0" unfolding h_def by linarith
    with that show ?thesis
      by (simp add: gaussian_kernel_negative gauss_body_no_kernel)
  qed
  have "run (gauss_body h (gaussian_kernel sigma h) (start_of skipFirstRow)
               (start_of skipFirstColumn)) content
          (positions content (start_of skipFirstRow) (start_of skipFirstColumn)) = Inr content"
    by (intro run_touches_nothing body) (simp add: in_positions in_mask_def)
  then show ?thesis
    by (simp add: applyGaussianSmoothing_def Let_def h_def)
qed

section \<open>The window of the moving average\<close>


lemma distinct_concat_map_Pair:
  "distinct xs \<Longrightarrow> (\<And>x. x \<in> set xs \<Longrightarrow> distinct (f x)) \<Longrightarrow>
   distinct (concat (map (\<lambda>x. map (Pair x) (f x)) xs))"
  by (induction xs) (auto simp: distinct_map inj_on_def)

lemma distinct_positions: "distinct (positions content startRow startCol)"
  unfolding positions_def by (rule distinct_concat_map_Pair) simp_all














section \<open>Markup and decimals\<close>


lemma set_tl_subset: "set (tl xs) \<subseteq> set xs"
  by (cases xs) auto

lemma set_tl_dropWhile: "set (tl (dropWhile P cs)) \<subseteq> set cs"
proof -
  have "set (tl (dropWhile P cs)) \<subseteq> set (dropWhile P cs)"
    by (rule set_tl_subset)
  also have "\<dots> \<subseteq> set cs"
    by (auto dest: set_dropWhileD)
  finally show ?thesis .
qed

lemma set_strip_tags: "set (strip_tags s) \<subseteq> set s"
proof (induction s rule: strip_tags.induct)
  case 1
  show ?case by simp
next
  case (2 c cs)
  show ?case
  proof (cases "c = CHR ''<'' \<and> CHR ''>'' \<in> set cs")
    case True
    have "set (tl (dropWhile (\<lambda>x. x \<noteq> CHR ''>'') cs)) \<subseteq> set cs"
      by (rule set_tl_dropWhile)
    with 2(1) [OF True] True show ?thesis by auto
  next
    case False
    with 2(2) [OF False] show ?thesis by auto
  qed
qed

lemma strip_tags_no_dot: "CHR ''.'' \<notin> set s \<Longrightarrow> CHR ''.'' \<notin> set (strip_tags s)"
  using set_strip_tags [of s] by auto

lemma tag_split:
  "CHR ''>'' \<in> set cs \<Longrightarrow>
   cs = takeWhile (\<lambda>x. x \<noteq> CHR ''>'') cs @ CHR ''>'' # tl (dropWhile (\<lambda>x. x \<noteq> CHR ''>'') cs)"
  by (induction cs) auto

lemma takeWhile_append_notin:
  "a \<notin> set xs \<Longrightarrow> takeWhile (\<lambda>x. x \<noteq> a) (xs @ ys) = xs @ takeWhile (\<lambda>x. x \<noteq> a) ys"
  by (induction xs) auto

lemma dropWhile_append_notin:
  "a \<notin> set xs \<Longrightarrow> dropWhile (\<lambda>x. x \<noteq> a) (xs @ ys) = dropWhile (\<lambda>x. x \<noteq> a) ys"
  by (induction xs) auto

lemma strip_tags_split_dot:
  "\<not> dot_in_tag s \<Longrightarrow>
   strip_tags s =
     strip_tags (takeWhile (\<lambda>x. x \<noteq> CHR ''.'') s)
     @ (case dropWhile (\<lambda>x. x \<noteq> CHR ''.'') s of [] \<Rightarrow> [] | d # rest \<Rightarrow> CHR ''.'' # strip_tags rest)
   \<and> \<not> dot_in_tag (tl (dropWhile (\<lambda>x. x \<noteq> CHR ''.'') s))"
proof (induction s rule: strip_tags.induct)
  case 1
  show ?case by simp
next
  case (2 c cs)
  show ?case
  proof (cases "c = CHR ''<'' \<and> CHR ''>'' \<in> set cs")
    case True
    define tag where "tag = takeWhile (\<lambda>x. x \<noteq> CHR ''>'') cs"
    define rest where "rest = tl (dropWhile (\<lambda>x. x \<noteq> CHR ''>'') cs)"
    from 2(3) True have nd: "CHR ''.'' \<notin> set tag" and nr: "\<not> dot_in_tag rest"
      by (simp_all add: tag_def rest_def)
    have ih: "strip_tags rest =
        strip_tags (takeWhile (\<lambda>x. x \<noteq> CHR ''.'') rest)
        @ (case dropWhile (\<lambda>x. x \<noteq> CHR ''.'') rest of [] \<Rightarrow> [] | d # r \<Rightarrow> CHR ''.'' # strip_tags r)"
      "\<not> dot_in_tag (tl (dropWhile (\<lambda>x. x \<noteq> CHR ''.'') rest))"
      using 2(1) [OF True] nr by (simp_all add: rest_def)
    have cs: "cs = tag @ CHR ''>'' # rest"
      unfolding tag_def rest_def using True by (intro tag_split) simp
    define tw where "tw = takeWhile (\<lambda>x. x \<noteq> CHR ''.'') rest"
    have nt: "CHR ''>'' \<notin> set tag"
      unfolding tag_def by (auto dest: set_takeWhileD)
    have t1: "takeWhile (\<lambda>x. x \<noteq> CHR ''.'') (tag @ CHR ''>'' # rest) = tag @ CHR ''>'' # tw"
      using nd by (simp add: takeWhile_append_notin tw_def)
    have d1: "dropWhile (\<lambda>x. x \<noteq> CHR ''.'') (tag @ CHR ''>'' # rest)
              = dropWhile (\<lambda>x. x \<noteq> CHR ''.'') rest"
      using nd by (simp add: dropWhile_append_notin)
    have t2: "takeWhile (\<lambda>x. x \<noteq> CHR ''>'') (tag @ CHR ''>'' # tw) = tag"
      using nt by (simp add: takeWhile_append_notin)
    have d2: "dropWhile (\<lambda>x. x \<noteq> CHR ''>'') (tag @ CHR ''>'' # tw) = CHR ''>'' # tw"
      using nt by (simp add: dropWhile_append_notin)
    have st: "strip_tags (c # tag @ CHR ''>'' # tw) = strip_tags tw"
      using True by (simp add: d2)
    have s0: "strip_tags (c # cs) = strip_tags rest"
      using True by (simp add: rest_def)
    have a: "takeWhile (\<lambda>x. x \<noteq> CHR ''.'') (c # cs) = c # tag @ CHR ''>'' # tw"
      using True t1 cs by simp
    have b: "dropWhile (\<lambda>x. x \<noteq> CHR ''.'') (c # cs) = dropWhile (\<lambda>x. x \<noteq> CHR ''.'') rest"
      using True d1 cs by simp
    show ?thesis
      unfolding a b s0 st using ih by (simp add: tw_def)
  next
    case False
    with 2(3) have nr: "\<not> dot_in_tag cs" by simp
    note ih = 2(2) [OF False nr]
    show ?thesis
    proof (cases "c = CHR ''.''")
      case True
      with False nr show ?thesis by simp
    next
      case nc: False
      have n: "\<not> (c = CHR ''<'' \<and> CHR ''>'' \<in> set (takeWhile (\<lambda>x. x \<noteq> CHR ''.'') cs))"
        using False by (auto dest: set_takeWhileD)
      have st: "strip_tags (c # takeWhile (\<lambda>x. x \<noteq> CHR ''.'') cs)
                 = c # strip_tags (takeWhile (\<lambda>x. x \<noteq> CHR ''.'') cs)"
        by (simp only: strip_tags.simps n if_False)
      have s0: "strip_tags (c # cs) = c # strip_tags cs"
        by (simp only: strip_tags.simps False if_False)
      have a: "takeWhile (\<lambda>x. x \<noteq> CHR ''.'') (c # cs) = c # takeWhile (\<lambda>x. x \<noteq> CHR ''.'') cs"
        using nc by simp
      have b: "dropWhile (\<lambda>x. x \<noteq> CHR ''.'') (c # cs) = dropWhile (\<lambda>x. x \<noteq> CHR ''.'') cs"
        using nc by simp
      show ?thesis
        unfolding a b s0 st using ih by simp
    qed
  qed
qed

lemma dropWhile_first:
  "a \<in> set xs \<Longrightarrow> dropWhile (\<lambda>x. x \<noteq> a) xs = a # tl (dropWhile (\<lambda>x. x \<noteq> a) xs)"
  by (induction xs) auto

lemma takeWhile_no_dot: "CHR ''.'' \<notin> set (takeWhile (\<lambda>x. x \<noteq> CHR ''.'') s)"
  by (auto dest: set_takeWhileD)

lemma decimals_of_stripped:
  assumes "\<not> dot_in_tag c"
  shows "decimals_of c = decimals_between (strip_tags c)"
proof (cases "CHR ''.'' \<in> set c")
  case False
  then show ?thesis
    by (simp add: decimals_of_def decimals_between_def strip_tags_no_dot)
next
  case True
  define p where "p = takeWhile (\<lambda>x. x \<noteq> CHR ''.'') c"
  define q where "q = tl (dropWhile (\<lambda>x. x \<noteq> CHR ''.'') c)"
  define q1 where "q1 = takeWhile (\<lambda>x. x \<noteq> CHR ''.'') q"
  define tail where "tail = (case dropWhile (\<lambda>x. x \<noteq> CHR ''.'') q of [] \<Rightarrow> []
                              | d # rest \<Rightarrow> CHR ''.'' # strip_tags rest)"
  from True have dw: "dropWhile (\<lambda>x. x \<noteq> CHR ''.'') c = CHR ''.'' # q"
    unfolding q_def by (rule dropWhile_first)
  from strip_tags_split_dot [OF assms]
  have s1: "strip_tags c = strip_tags p @ CHR ''.'' # strip_tags q" and nq: "\<not> dot_in_tag q"
    by (simp_all add: dw p_def [symmetric] q_def [symmetric])
  have np: "CHR ''.'' \<notin> set (strip_tags p)"
    unfolding p_def by (rule strip_tags_no_dot) (rule takeWhile_no_dot)
  have s2: "strip_tags q = strip_tags q1 @ tail"
    using strip_tags_split_dot [OF nq] by (simp add: q1_def tail_def)
  have nq1: "CHR ''.'' \<notin> set (strip_tags q1)"
    unfolding q1_def by (rule strip_tags_no_dot) (rule takeWhile_no_dot)
  have tl: "tail = [] \<or> hd tail = CHR ''.''"
    by (simp add: tail_def split: list.splits)
  have t: "takeWhile (\<lambda>x. x \<noteq> CHR ''.'') (strip_tags q1 @ tail) = strip_tags q1"
    using nq1 tl by (cases tail) (auto simp: takeWhile_append_notin)
  have d: "dropWhile (\<lambda>x. x \<noteq> CHR ''.'') (strip_tags p @ CHR ''.'' # strip_tags q)
             = CHR ''.'' # strip_tags q"
    using np by (simp add: dropWhile_append_notin)
  have m: "CHR ''.'' \<in> set (strip_tags c)"
    unfolding s1 by simp
  have "split_dot_1 (strip_tags c) = strip_tags q1"
    unfolding split_dot_1_def s1 d by (simp add: s2 t)
  moreover have "split_dot_1 c = q1"
    by (simp add: split_dot_1_def q1_def q_def)
  ultimately show ?thesis
    using True m by (simp add: decimals_of_def decimals_between_def)
qed

section \<open>The three smoothing bodies\<close>


lemma gauss_window_returns:
  "i < length content \<Longrightarrow>
   \<exists>acc'. gauss_window content startRow startCol i j halfSize kern ks acc = Inr acc'"
proof (induction ks arbitrary: acc)
  case Nil
  then show ?case by simp
next
  case (Cons k ks)
  obtain ki kj where k: "k = (ki, kj)" by (cases k)
  obtain sm w where a: "acc = (sm, w)" by (cases acc)
  let ?ni = "int i + int ki - halfSize" and ?nj = "int j + int kj - halfSize"
  show ?case
  proof (cases "in_window content startRow startCol i ?ni ?nj")
    case True
    note nv = neighborValue_in_window [OF True]
    show ?thesis
      unfolding k a using True nv Cons.IH [OF Cons.prems]
      by (cases "numeric_at content ?ni ?nj") (simp_all add: Let_def)
  next
    case False
    then show ?thesis
      unfolding k a using Cons.IH [OF Cons.prems] by (simp add: Let_def)
  qed
qed

lemma bilinear_neighbors_returns:
  assumes "in_mask content startRow startCol i j"
  shows "\<exists>ns. bilinear_neighbors content startRow startCol i j = Inr ns"
proof -
  have b: "i < length content" "j < length (content ! i)"
    using assms by (simp_all add: in_mask_def)
  have u: "startRow < i \<Longrightarrow> neighborValue content (int i - 1) (int j)
             = Inr (numeric_at content (int i - 1) (int j))"
    using b by (intro neighborValue_row) simp_all
  have d: "int i < int (length content) - 1 \<Longrightarrow> neighborValue content (int i + 1) (int j)
             = Inr (numeric_at content (int i + 1) (int j))"
    by (intro neighborValue_row) simp_all
  have l: "neighborValue content (int i) (int j - 1) = Inr (numeric_at content (int i) (int j - 1))"
    using b by (intro neighborValue_row) simp_all
  have r: "neighborValue content (int i) (int j + 1) = Inr (numeric_at content (int i) (int j + 1))"
    using b by (intro neighborValue_row) simp_all
  show ?thesis
    unfolding bilinear_neighbors_def by (simp add: u d l r)
qed

lemma ma_body_value:
  assumes "ma_body h startRow startCol content i j = Inr (Some t)"
  shows "toFixed (ma_value h startRow startCol content i j) (max (decimals_of (content ! i ! j)) 2) = Inr t"
  using assms unfolding ma_body_def ma_value_def
  by (auto split: sum.splits option.splits if_splits)

lemma gauss_body_value:
  assumes "gauss_body h kern startRow startCol content i j = Inr (Some t)"
  shows "toFixed (gauss_value h kern startRow startCol content i j)
           (max (decimals_of (content ! i ! j)) 2) = Inr t"
  using assms unfolding gauss_body_def gauss_value_def
  by (auto split: sum.splits option.splits if_splits)

lemma bilinear_body_value:
  assumes "in_mask content startRow startCol i j"
    and "bilinear_body startRow startCol content i j = Inr (Some t)"
  shows "toFixed (bilinear_value startRow startCol content i j)
           (max (decimals_of (content ! i ! j)) 2) = Inr t"
proof -
  have b: "i < length content" "j < length (content ! i)"
    using assms(1) by (simp_all add: in_mask_def)
  have n: "neighborValue content (int i) (int j) = Inr (parseNumericValue (Some (content ! i ! j)))"
    using b by (simp add: neighborValue_row numeric_at_cell)
  show ?thesis
    using assms(2) unfolding bilinear_body_def bilinear_value_def n
    by (auto split: sum.splits option.splits if_splits)
qed

lemma run_rewritten:
  assumes "run body content (positions content startRow startCol) = Inr r"
    and "in_mask content startRow startCol i j"
    and "body content i j \<noteq> Inr None"
  shows "body content i j = Inr (Some (r ! i ! j))"
proof -
  from run_cell [OF assms(1,2)] obtain x where
    x: "body content i j = Inr x" "r ! i ! j = (case x of Some t \<Rightarrow> t | None \<Rightarrow> content ! i ! j)"
    by auto
  with assms(3) show ?thesis by (cases x) simp_all
qed


text \<open>A one-cell table under the Gaussian, for a sigma that is not zero.\<close>

lemma fold_once:
  assumes "distinct ks" and "p \<in> set ks" and "\<And>q a. q \<noteq> p \<Longrightarrow> f q a = a"
  shows "fold f ks a = f p a"
  using assms(1,2)
proof (induction ks arbitrary: a)
  case Nil
  then show ?case by simp
next
  case (Cons k ks)
  show ?case
  proof (cases "k = p")
    case True
    with Cons.prems have "p \<notin> set ks" by simp
    then have "fold f ks b = b" for b
      by (induction ks arbitrary: b) (auto simp: assms(3))
    with True show ?thesis by simp
  next
    case False
    with Cons show ?thesis by (simp add: assms(3))
  qed
qed

lemma gauss_window_single:
  assumes "parseNumericValue (Some s) = Some v" and "0 \<le> h"
  shows "gauss_window [[s]] 0 0 0 0 h K ks acc =
         Inr (fold (\<lambda>(ki, kj) (sm, w).
                      if int ki = h \<and> int kj = h
                      then (jsadd sm (jsmul v (K ! ki ! kj)), jsadd w (K ! ki ! kj))
                      else (sm, w)) ks acc)"
proof (induction ks arbitrary: acc)
  case Nil
  show ?case by simp
next
  case (Cons k ks)
  obtain ki kj where k: "k = (ki, kj)" by (cases k)
  obtain sm w where a: "acc = (sm, w)" by (cases acc)
  have n: "neighborValue [[s]] 0 0 = Inr (Some v)"
    using assms(1) by (simp add: neighborValue_def cell_def)
  have w: "in_window [[s]] 0 0 0 (int ki - h) (int kj - h) \<longleftrightarrow> int ki = h \<and> int kj = h"
    by (auto simp: in_window_def)
  show ?case
    unfolding k a using Cons [of "(jsadd sm (jsmul v (K ! ki ! kj)), jsadd w (K ! ki ! kj))"]
      Cons [of "(sm, w)"] n
    by (auto simp: w Let_def)
qed

lemma fold_jsadd_positive:
  assumes "\<And>v. v \<in> set vs \<Longrightarrow> \<exists>a>0. v = Fin a" and "0 \<le> s"
  shows "\<exists>S\<ge>s. fold (\<lambda>v s. jsadd s v) vs (Fin s) = Fin S"
  using assms
proof (induction vs arbitrary: s)
  case Nil
  then show ?case by auto
next
  case (Cons v vs)
  from Cons.prems(1) [of v] obtain a where a: "0 < a" "v = Fin a" by auto
  have "\<exists>S\<ge>s + a. fold (\<lambda>v s. jsadd s v) vs (Fin (s + a)) = Fin S"
    using Cons.prems a by (intro Cons.IH) auto
  then show ?case using a by auto
qed

lemma kernel_values_entry:
  assumes "sigma \<noteq> 0" and "v \<in> set (concat (kernel_values sigma h))"
  shows "\<exists>a>0. v = Fin a"
  using assms by (auto simp: kernel_values_def)

lemma kernel_centre:
  assumes "sigma \<noteq> 0" and "0 \<le> h"
  shows "\<exists>w>0. gaussian_kernel sigma h ! nat h ! nat h = Fin w"
proof -
  have len: "nat h < length [- h .. h]" using assms(2) by simp
  have nth: "[- h .. h] ! nat h = 0" using assms(2) by (simp add: nth_upto)
  have c: "kernel_values sigma h ! nat h ! nat h = Fin 1"
    using assms(1) len by (simp add: kernel_values_def nth)
  obtain S where S: "0 \<le> S" "fold (\<lambda>v s. jsadd s v) (concat (kernel_values sigma h)) (Fin 0) = Fin S"
    using fold_jsadd_positive [of "concat (kernel_values sigma h)" 0]
      kernel_values_entry [OF assms(1)] by blast
  have "Fin 1 \<in> set (concat (kernel_values sigma h))"
  proof -
    have "kernel_values sigma h ! nat h \<in> set (kernel_values sigma h)"
      using len by (intro nth_mem) (simp add: kernel_values_def)
    moreover have "kernel_values sigma h ! nat h ! nat h \<in> set (kernel_values sigma h ! nat h)"
      using len by (intro nth_mem) (simp add: kernel_values_def)
    ultimately show ?thesis using c by auto
  qed
  then obtain pre post where sp: "concat (kernel_values sigma h) = pre @ Fin 1 # post"
    by (meson split_list)
  have pre: "\<And>v. v \<in> set pre \<Longrightarrow> \<exists>a>0. v = Fin a" and post: "\<And>v. v \<in> set post \<Longrightarrow> \<exists>a>0. v = Fin a"
    using kernel_values_entry [OF assms(1), of _ h] sp by auto
  obtain P where P: "0 \<le> P" "fold (\<lambda>v s. jsadd s v) pre (Fin 0) = Fin P"
    using fold_jsadd_positive [of pre 0] pre by blast
  obtain Q where Q: "P + 1 \<le> Q" "fold (\<lambda>v s. jsadd s v) post (Fin (P + 1)) = Fin Q"
    using fold_jsadd_positive [of post "P + 1"] post P(1) by auto
  have "fold (\<lambda>v s. jsadd s v) (concat (kernel_values sigma h)) (Fin 0) = Fin Q"
    by (simp add: sp P Q)
  with S have "S = Q" by simp
  with P Q have pos: "0 < S" by simp
  have gk: "gaussian_kernel sigma h = map (map (\<lambda>v. jsdiv v (Fin S))) (kernel_values sigma h)"
    by (simp add: gaussian_kernel_def Let_def S(2))
  have l1: "nat h < length (kernel_values sigma h)"
    using len by (simp add: kernel_values_def)
  have l2: "nat h < length (kernel_values sigma h ! nat h)"
    using len by (simp add: kernel_values_def)
  have "gaussian_kernel sigma h ! nat h ! nat h = jsdiv (Fin 1) (Fin S)"
    unfolding gk using l1 l2 by (simp add: c)
  with pos show ?thesis by auto
qed

lemma gaussian_single_cell:
  assumes "parseNumericValue (Some s) = Some (Fin a)" and "0 < sigma"
  shows "applyGaussianSmoothing [[s]] sigma False False =
         (case toFixed (Fin a) (max (decimals_of s) 2) of Inl e \<Rightarrow> Inl e | Inr t \<Rightarrow> Inr [[t]])"
    and "gauss_value ((\<lceil>sigma * 3\<rceil> * 2 + 1) div 2)
           (gaussian_kernel sigma ((\<lceil>sigma * 3\<rceil> * 2 + 1) div 2)) 0 0 [[s]] 0 0 = Fin a"
    and "gauss_body ((\<lceil>sigma * 3\<rceil> * 2 + 1) div 2)
           (gaussian_kernel sigma ((\<lceil>sigma * 3\<rceil> * 2 + 1) div 2)) 0 0 [[s]] 0 0
         = (case toFixed (Fin a) (max (decimals_of s) 2) of Inl e \<Rightarrow> Inl e | Inr t \<Rightarrow> Inr (Some t))"
proof -
  define h where "h = (\<lceil>sigma * 3\<rceil> * 2 + 1) div 2"
  define K where "K = gaussian_kernel sigma h"
  have "0 < \<lceil>sigma * 3\<rceil>" using assms(2) by simp
  then have h0: "0 \<le> h" unfolding h_def by linarith
  from kernel_centre [OF _ h0, of sigma] assms(2)
  obtain w where w: "0 < w" "K ! nat h ! nat h = Fin w" by (auto simp: K_def)
  have lenK: "length K = nat (2 * h + 1)" "\<And>k. k < length K \<Longrightarrow> length (K ! k) = nat (2 * h + 1)"
    using h0 by (simp_all add: K_def gaussian_kernel_def Let_def kernel_values_def)
  have mem: "(nat h, nat h) \<in> set (positions K 0 0)"
    using h0 lenK by (simp add: in_positions)
  let ?f = "\<lambda>(ki, kj) (sm, w).
                      if int ki = h \<and> int kj = h
                      then (jsadd sm (jsmul (Fin a) (K ! ki ! kj)), jsadd w (K ! ki ! kj))
                      else (sm, w)"
  have idle: "?f q acc = acc" if "q \<noteq> (nat h, nat h)" for q acc
    using that h0 by (cases q; cases acc) auto
  have "fold ?f (positions K 0 0) (Fin 0, Fin 0) = ?f (nat h, nat h) (Fin 0, Fin 0)"
    by (rule fold_once [OF distinct_positions mem]) (rule idle)
  also have "\<dots> = (Fin (a * w), Fin w)"
    using h0 w by simp
  finally have gw: "gauss_window [[s]] 0 0 0 0 h K (positions K 0 0) (Fin 0, Fin 0)
                      = Inr (Fin (a * w), Fin w)"
    using gauss_window_single [OF assms(1) h0, of K "positions K 0 0" "(Fin 0, Fin 0)"] by simp
  have n: "neighborValue [[s]] 0 0 = Inr (Some (Fin a))"
    using assms(1) by (simp add: neighborValue_def cell_def)
  have d: "jsdiv (Fin (a * w)) (Fin w) = Fin a" using w by simp
  show v: "gauss_value ((\<lceil>sigma * 3\<rceil> * 2 + 1) div 2)
           (gaussian_kernel sigma ((\<lceil>sigma * 3\<rceil> * 2 + 1) div 2)) 0 0 [[s]] 0 0 = Fin a"
    unfolding h_def [symmetric] K_def [symmetric] using w by (simp add: gauss_value_def gw)
  show b: "gauss_body ((\<lceil>sigma * 3\<rceil> * 2 + 1) div 2)
           (gaussian_kernel sigma ((\<lceil>sigma * 3\<rceil> * 2 + 1) div 2)) 0 0 [[s]] 0 0
         = (case toFixed (Fin a) (max (decimals_of s) 2) of Inl e \<Rightarrow> Inl e | Inr t \<Rightarrow> Inr (Some t))"
    unfolding h_def [symmetric] K_def [symmetric]
    using w by (simp add: gauss_body_def n gw)
  have p: "positions [[s]] 0 0 = [(0, 0)]"
    by (simp add: positions_def)
  show "applyGaussianSmoothing [[s]] sigma False False =
         (case toFixed (Fin a) (max (decimals_of s) 2) of Inl e \<Rightarrow> Inl e | Inr t \<Rightarrow> Inr [[t]])"
  proof -
    have hh: "(\<lceil>sigma * 3\<rceil> * 2 + 1) div 2 = \<lceil>sigma * 3\<rceil>" by simp
    note b' = b [unfolded hh]
    show ?thesis
      unfolding applyGaussianSmoothing_def Let_def start_of_def hh
      by (simp add: p run_def b' write_cell_def split: sum.splits)
  qed
qed

section \<open>The directional search\<close>


lemma cell_text_at:
  "0 \<le> r \<Longrightarrow> r < int (length content) \<Longrightarrow> cell content r c = Inr (text_at content r c)"
  by (simp add: cell_def text_at_def)

lemma findNearest_loop_step:
  "findNearest_loop content startRow startCol row col d r c =
     (if in_area content startRow startCol r c
      then if is_source content r c
           then Inr (Some (found_at content r c (\<bar>r - int row\<bar> + \<bar>c - int col\<bar>)))
           else findNearest_loop content startRow startCol row col d (r + dRow d) (c + dCol d)
      else Inr None)"
proof -
  note u = findNearest_loop.simps [of content startRow startCol row col d r c]
  have g: "(int startRow \<le> r \<and> r < int (length content) \<and>
         int startCol \<le> c \<and> c < int (length (content ! 0))) = in_area content startRow startCol r c"
    by (simp add: in_area_def)
  show ?thesis
  proof (cases "in_area content startRow startCol r c")
    case False
    show ?thesis
      by (simp only: u g False if_False)
  next
    case True
    then have rng: "0 \<le> r" "r < int (length content)"
      by (simp_all add: in_area_def)
    show ?thesis
    proof (cases "is_source content r c")
      case src: True
      then obtain v s where v: "parseNumericValue (text_at content r c) = Some v"
        and s: "text_at content r c = Some s"
        by (cases "text_at content r c") (auto simp: is_source_def isEmpty_def)
      from src have ne: "isEmpty (text_at content r c) = False" by (simp add: is_source_def)
      have "(case cell content r c of Inl x \<Rightarrow> Inl x
        | Inr t \<Rightarrow>
            case if \<not> isEmpty t then parseNumericValue t else None of
            None \<Rightarrow> findNearest_loop content startRow startCol row col d (r + dRow d) (c + dCol d)
            | Some val \<Rightarrow>
                case t of None \<Rightarrow> Inl TypeError
                | Some s \<Rightarrow> Inr (Some (val, \<bar>r - int row\<bar> + \<bar>c - int col\<bar>, getDecimalPlaces s)))
         = Inr (Some (found_at content r c (\<bar>r - int row\<bar> + \<bar>c - int col\<bar>)))"
        using v [unfolded s] ne [unfolded s] by (simp add: cell_text_at [OF rng] found_at_def s)
      then show ?thesis
        by (simp only: u g True src if_True)
    next
      case nsrc: False
      then have none: "(if \<not> isEmpty (text_at content r c) then parseNumericValue (text_at content r c)
                  else None) = None"
        by (auto simp: is_source_def)
      have "(case cell content r c of Inl x \<Rightarrow> Inl x
        | Inr t \<Rightarrow>
            case if \<not> isEmpty t then parseNumericValue t else None of
            None \<Rightarrow> findNearest_loop content startRow startCol row col d (r + dRow d) (c + dCol d)
            | Some val \<Rightarrow>
                case t of None \<Rightarrow> Inl TypeError
                | Some s \<Rightarrow> Inr (Some (val, \<bar>r - int row\<bar> + \<bar>c - int col\<bar>, getDecimalPlaces s)))
         = findNearest_loop content startRow startCol row col d (r + dRow d) (c + dCol d)"
        by (simp only: cell_text_at [OF rng] sum.case none option.case)
      then show ?thesis
        by (simp only: u g True nsrc if_True if_False)
    qed
  qed
qed

lemma findNearest_loop_char:
  "\<exists>n. (\<forall>m<n. in_area content startRow startCol (r + int m * dRow d) (c + int m * dCol d)
               \<and> \<not> is_source content (r + int m * dRow d) (c + int m * dCol d))
       \<and> (if in_area content startRow startCol (r + int n * dRow d) (c + int n * dCol d)
          then is_source content (r + int n * dRow d) (c + int n * dCol d)
               \<and> findNearest_loop content startRow startCol row col d r c
                   = Inr (Some (found_at content (r + int n * dRow d) (c + int n * dCol d)
                                  (\<bar>r + int n * dRow d - int row\<bar> + \<bar>c + int n * dCol d - int col\<bar>)))
          else findNearest_loop content startRow startCol row col d r c = Inr None)"
proof (induction content startRow startCol row col d r c rule: findNearest_loop.induct)
  case (1 content startRow startCol row col d r c)
  note step = findNearest_loop_step [of content startRow startCol row col d r c]
  show ?case
  proof (cases "in_area content startRow startCol r c \<and> \<not> is_source content r c")
    case False
    then show ?thesis
      using step by (intro exI [of _ 0]) auto
  next
    case True
    then have rng: "0 \<le> r" "r < int (length content)"
      and g: "int startRow \<le> r \<and> r < int (length content) \<and>
         int startCol \<le> c \<and> c < int (length (content ! 0))"
      by (simp_all add: in_area_def)
    have none: "(if \<not> isEmpty (text_at content r c) then parseNumericValue (text_at content r c)
                else None) = None"
      using True by (auto simp: is_source_def)
    from "1.IH" [OF g cell_text_at [OF rng] none]
    obtain n where n:
      "\<forall>m<n. in_area content startRow startCol (r + dRow d + int m * dRow d) (c + dCol d + int m * dCol d)
               \<and> \<not> is_source content (r + dRow d + int m * dRow d) (c + dCol d + int m * dCol d)"
      "if in_area content startRow startCol (r + dRow d + int n * dRow d) (c + dCol d + int n * dCol d)
       then is_source content (r + dRow d + int n * dRow d) (c + dCol d + int n * dCol d)
            \<and> findNearest_loop content startRow startCol row col d (r + dRow d) (c + dCol d)
                = Inr (Some (found_at content (r + dRow d + int n * dRow d) (c + dCol d + int n * dCol d)
                        (\<bar>r + dRow d + int n * dRow d - int row\<bar> + \<bar>c + dCol d + int n * dCol d - int col\<bar>)))
       else findNearest_loop content startRow startCol row col d (r + dRow d) (c + dCol d) = Inr None"
      by blast
    have e: "r + dRow d + int m * dRow d = r + int (Suc m) * dRow d"
            "c + dCol d + int m * dCol d = c + int (Suc m) * dCol d" for m
      by (simp_all add: algebra_simps)
    have s: "findNearest_loop content startRow startCol row col d r c
             = findNearest_loop content startRow startCol row col d (r + dRow d) (c + dCol d)"
      using step True by simp
    have a: "\<forall>m<Suc n. in_area content startRow startCol (r + int m * dRow d) (c + int m * dCol d)
               \<and> \<not> is_source content (r + int m * dRow d) (c + int m * dCol d)"
    proof (intro allI impI)
      fix m assume "m < Suc n"
      show "in_area content startRow startCol (r + int m * dRow d) (c + int m * dCol d)
               \<and> \<not> is_source content (r + int m * dRow d) (c + int m * dCol d)"
      proof (cases m)
        case 0
        with True show ?thesis by simp
      next
        case (Suc k)
        with \<open>m < Suc n\<close> have "k < n" by simp
        with n(1) show ?thesis unfolding Suc e [symmetric] by blast
      qed
    qed
    note n2 = n(2) [unfolded e, folded s]
    from a n2 show ?thesis
      by (intro exI [of _ "Suc n"] conjI)
  qed
qed


lemma unit_step: "\<bar>int k * dRow d\<bar> + \<bar>int k * dCol d\<bar> = int k"
  by (cases d) simp_all

lemma findNearest_char:
  "\<exists>k>0. (\<forall>m. 0 < m \<and> m < k \<longrightarrow>
              in_area content startRow startCol (int row + int m * dRow d) (int col + int m * dCol d)
              \<and> \<not> is_source content (int row + int m * dRow d) (int col + int m * dCol d))
        \<and> (if in_area content startRow startCol (int row + int k * dRow d) (int col + int k * dCol d)
           then is_source content (int row + int k * dRow d) (int col + int k * dCol d)
                \<and> findNearest content startRow startCol row col d
                    = Inr (Some (found_at content (int row + int k * dRow d)
                                   (int col + int k * dCol d) (int k)))
           else findNearest content startRow startCol row col d = Inr None)"
proof -
  from findNearest_loop_char [of content startRow startCol "int row + dRow d" d "int col + dCol d" row col]
  obtain n where n:
    "\<forall>m<n. in_area content startRow startCol (int row + dRow d + int m * dRow d)
                (int col + dCol d + int m * dCol d)
           \<and> \<not> is_source content (int row + dRow d + int m * dRow d)
                (int col + dCol d + int m * dCol d)"
    "if in_area content startRow startCol (int row + dRow d + int n * dRow d)
          (int col + dCol d + int n * dCol d)
     then is_source content (int row + dRow d + int n * dRow d) (int col + dCol d + int n * dCol d)
          \<and> findNearest_loop content startRow startCol row col d (int row + dRow d) (int col + dCol d)
              = Inr (Some (found_at content (int row + dRow d + int n * dRow d)
                      (int col + dCol d + int n * dCol d)
                      (\<bar>int row + dRow d + int n * dRow d - int row\<bar>
                       + \<bar>int col + dCol d + int n * dCol d - int col\<bar>)))
     else findNearest_loop content startRow startCol row col d (int row + dRow d) (int col + dCol d)
            = Inr None"
    by blast
  have e: "int row + dRow d + int m * dRow d = int row + int (Suc m) * dRow d"
          "int col + dCol d + int m * dCol d = int col + int (Suc m) * dCol d" for m
    by (simp_all add: algebra_simps)
  have dist: "\<bar>int row + int (Suc n) * dRow d - int row\<bar> + \<bar>int col + int (Suc n) * dCol d - int col\<bar>
              = int (Suc n)"
    using unit_step [of "Suc n" d] by simp
  note n2 = n(2) [unfolded e dist, folded findNearest_def]
  have a: "\<forall>m. 0 < m \<and> m < Suc n \<longrightarrow>
              in_area content startRow startCol (int row + int m * dRow d) (int col + int m * dCol d)
              \<and> \<not> is_source content (int row + int m * dRow d) (int col + int m * dCol d)"
  proof (intro allI impI)
    fix m assume m: "0 < m \<and> m < Suc n"
    then obtain k where k: "m = Suc k" "k < n" by (cases m) auto
    from n(1) k(2) show "in_area content startRow startCol (int row + int m * dRow d) (int col + int m * dCol d)
              \<and> \<not> is_source content (int row + int m * dRow d) (int col + int m * dCol d)"
      unfolding k(1) e [symmetric] by blast
  qed
  from a n2 show ?thesis
    by (intro exI [of _ "Suc n"] conjI) simp_all
qed

section \<open>Errors\<close>


lemma toFixed_error: "toFixed x f = Inl e \<Longrightarrow> e = RangeError \<and> 100 < f"
  by (cases x) (auto simp: toFixed_def split: if_splits)

lemma toFixed_returns: "f \<le> 100 \<Longrightarrow> \<exists>t. toFixed x f = Inr t"
  by (cases x) (auto simp: toFixed_def)

lemma ma_body_error:
  assumes "in_mask content startRow startCol i j"
    and "ma_body h startRow startCol content i j = Inl e"
  shows "e = RangeError \<and> 100 < decimals_of (content ! i ! j)"
proof -
  have b: "i < length content" using assms(1) by (simp add: in_mask_def)
  from assms(2) show ?thesis
    unfolding ma_body_def
    by (auto simp: neighborValue_row [OF _ b [THEN iffD2 [OF of_nat_less_iff]]]
        ma_window_eq [OF b] dest!: toFixed_error split: option.splits sum.splits if_splits)
qed

lemma gauss_body_error:
  assumes "in_mask content startRow startCol i j"
    and "gauss_body h kern startRow startCol content i j = Inl e"
  shows "e = RangeError \<and> 100 < decimals_of (content ! i ! j)"
proof -
  have b: "i < length content" using assms(1) by (simp add: in_mask_def)
  have n: "neighborValue content (int i) (int j) = Inr (numeric_at content (int i) (int j))"
    using b by (simp add: neighborValue_row)
  obtain acc where w: "gauss_window content startRow startCol i j h kern (positions kern 0 0)
      (Fin 0, Fin 0) = Inr acc"
    using gauss_window_returns [OF b] by blast
  from assms(2) show ?thesis
    unfolding gauss_body_def n w
    by (auto dest!: toFixed_error split: option.splits sum.splits if_splits prod.splits)
qed

lemma bilinear_body_error:
  assumes "in_mask content startRow startCol i j"
    and "bilinear_body startRow startCol content i j = Inl e"
  shows "e = RangeError \<and> 100 < decimals_of (content ! i ! j)"
proof -
  have b: "i < length content" using assms(1) by (simp add: in_mask_def)
  have n: "neighborValue content (int i) (int j) = Inr (numeric_at content (int i) (int j))"
    using b by (simp add: neighborValue_row)
  obtain ns where w: "bilinear_neighbors content startRow startCol i j = Inr ns"
    using bilinear_neighbors_returns [OF assms(1)] by blast
  from assms(2) show ?thesis
    unfolding bilinear_body_def n w
    by (auto dest!: toFixed_error split: option.splits sum.splits if_splits)
qed

text \<open>What one search returns: nothing, or the number and decimals of a cell of the mask.\<close>

lemma findNearest_result:
  "findNearest content startRow startCol row col d = Inr None
   \<or> (\<exists>v k a b. findNearest content startRow startCol row col d
                   = Inr (Some (v, k, getDecimalPlaces (content ! a ! b)))
               \<and> in_mask content startRow startCol a b)"
proof -
  from findNearest_char [of content startRow startCol row d col]
  obtain k where k:
    "if in_area content startRow startCol (int row + int k * dRow d) (int col + int k * dCol d)
           then is_source content (int row + int k * dRow d) (int col + int k * dCol d)
                \<and> findNearest content startRow startCol row col d
                    = Inr (Some (found_at content (int row + int k * dRow d)
                                   (int col + int k * dCol d) (int k)))
           else findNearest content startRow startCol row col d = Inr None"
    by blast
  define r where "r = int row + int k * dRow d"
  define c where "c = int col + int k * dCol d"
  show ?thesis
  proof (cases "in_area content startRow startCol r c")
    case False
    with k show ?thesis by (simp add: r_def c_def)
  next
    case True
    with k have s: "is_source content r c"
      and f: "findNearest content startRow startCol row col d = Inr (Some (found_at content r c (int k)))"
      by (simp_all add: r_def c_def)
    from s have t: "text_at content r c = Some (content ! nat r ! nat c)"
      and cb: "0 \<le> c" "c < int (length (content ! nat r))"
      by (auto simp: is_source_def text_at_def isEmpty_def split: if_splits)
    from True cb have m: "in_mask content startRow startCol (nat r) (nat c)"
      by (auto simp: in_area_def in_mask_def)
    from f t m show ?thesis
      by (auto simp: found_at_def)
  qed
qed

lemma found_values_result:
  "\<exists>found. found_values content startRow startCol i j = Inr found
     \<and> (\<forall>x\<in>set found. \<exists>v k a b. x = (v, k, getDecimalPlaces (content ! a ! b))
                                  \<and> in_mask content startRow startCol a b)"
proof -
  note r = findNearest_result [of content startRow startCol i j]
  from r [of Top] r [of Bottom] r [of Left] r [of Right] show ?thesis
    unfolding found_values_def by (elim disjE exE conjE) (simp_all, blast+)
qed

lemma fold_max_bound:
  "(\<And>x. x \<in> set xs \<Longrightarrow> x \<le> b) \<Longrightarrow> a \<le> b \<Longrightarrow> fold max xs a \<le> (b::nat)"
  by (induction xs arbitrary: a) auto

lemma fold_max_witness:
  "b < fold max xs (a::nat) \<Longrightarrow> b < a \<or> (\<exists>x\<in>set xs. b < x)"
  by (induction xs arbitrary: a) (auto simp: max_def split: if_splits)

lemma fill_body_error:
  assumes "in_mask content startRow startCol i j"
    and "fill_body startRow startCol content i j = Inl e"
  shows "e = RangeError
         \<and> (\<exists>a b. in_mask content startRow startCol a b \<and> 100 < getDecimalPlaces (content ! a ! b))"
proof -
  have b: "0 \<le> int i" "int i < int (length content)"
    using assms(1) by (simp_all add: in_mask_def)
  obtain found where f: "found_values content startRow startCol i j = Inr found"
    and s: "\<forall>x\<in>set found. \<exists>v k a b. x = (v, k, getDecimalPlaces (content ! a ! b))
                                  \<and> in_mask content startRow startCol a b"
    using found_values_result by blast
  from assms(2) have t: "toFixed (interpolated found)
        (fold max (map (\<lambda>(v, distance, decimals). decimals) found) 1) = Inl e"
    unfolding fill_body_def cell_text_at [OF b] f
    by (auto split: if_splits sum.splits)
  from toFixed_error [OF t] have e: "e = RangeError"
    and "100 < fold max (map (\<lambda>(v, distance, decimals). decimals) found) 1"
    by simp_all
  from fold_max_witness [OF this(2)]
  obtain x where "x \<in> set found" "100 < (\<lambda>(v, distance, decimals). decimals) x"
    by auto
  with s e show ?thesis by fastforce
qed






section \<open>The text of a printed number\<close>















section \<open>Filling twice\<close>




section \<open>Colours\<close>


lemma Math_round_between:
  fixes x :: real
  assumes "real_of_int lo \<le> x" and "x \<le> real_of_int hi"
  shows "lo \<le> Math_round x \<and> Math_round x \<le> hi"
proof -
  have "real_of_int lo \<le> x + 1 / 2" using assms(1) by simp
  then have "lo \<le> \<lfloor>x + 1 / 2\<rfloor>" by (simp add: le_floor_iff)
  moreover have "x + 1 / 2 < real_of_int (hi + 1)" using assms(2) by simp
  then have "\<lfloor>x + 1 / 2\<rfloor> < hi + 1" by (simp only: floor_less_iff)
  ultimately show ?thesis by (simp add: Math_round_def)
qed

lemma interpolate_between:
  fixes f :: real
  assumes "0 \<le> f" and "f \<le> 1" and "lo \<le> a" and "a \<le> hi" and "lo \<le> b" and "b \<le> hi"
  shows "lo \<le> Math_round (real_of_int a + real_of_int (b - a) * f)
         \<and> Math_round (real_of_int a + real_of_int (b - a) * f) \<le> hi"
proof (rule Math_round_between)
  have e: "real_of_int a + real_of_int (b - a) * f = (1 - f) * real_of_int a + f * real_of_int b"
    by (simp add: algebra_simps)
  have l1: "(1 - f) * real_of_int lo \<le> (1 - f) * real_of_int a"
    using assms(2,3) by (intro mult_left_mono) simp_all
  have l2: "f * real_of_int lo \<le> f * real_of_int b"
    using assms(1,5) by (intro mult_left_mono) simp_all
  have h1: "(1 - f) * real_of_int a \<le> (1 - f) * real_of_int hi"
    using assms(2,4) by (intro mult_left_mono) simp_all
  have h2: "f * real_of_int b \<le> f * real_of_int hi"
    using assms(1,6) by (intro mult_left_mono) simp_all
  have "(1 - f) * real_of_int lo + f * real_of_int lo = real_of_int lo"
       "(1 - f) * real_of_int hi + f * real_of_int hi = real_of_int hi"
    by (simp_all add: algebra_simps)
  with l1 l2 h1 h2 show "real_of_int lo \<le> real_of_int a + real_of_int (b - a) * f"
    and "real_of_int a + real_of_int (b - a) * f \<le> real_of_int hi"
    unfolding e by linarith+
qed

lemma find_stops_Some:
  "find_stops v cs = Some (a, b) \<Longrightarrow>
   a \<in> set cs \<and> b \<in> set cs \<and> stop_value a \<le> v \<and> v \<le> stop_value b"
  by (induction v cs rule: find_stops.induct) (auto split: if_splits)

lemma interpolateColor_ok:
  assumes "channel_ok c1" and "channel_ok c2" and "0 \<le> f" and "f \<le> 1"
  shows "channel_ok (interpolateColor c1 c2 f)"
proof -
  obtain r1 g1 b1 where c1: "c1 = (r1, g1, b1)" by (cases c1)
  obtain r2 g2 b2 where c2: "c2 = (r2, g2, b2)" by (cases c2)
  from assms(1,2) show ?thesis
    unfolding c1 c2 channel_ok_def interpolateColor_def
    using interpolate_between [OF assms(3,4), of 0 _ 255]
    by simp
qed

lemma color_channels_ok:
  assumes "colors scheme \<noteq> []"
    and "\<And>s. s \<in> set (colors scheme) \<Longrightarrow> channel_ok (stop_color s)"
    and "stop_value (hd (colors scheme)) = 0" and "stop_value (last (colors scheme)) = 1"
  shows "\<exists>c. color_channels v scheme = Inr c \<and> channel_ok c"
proof -
  obtain c cs where cs: "colors scheme = c # cs"
    using assms(1) by (cases "colors scheme") auto
  define x where "x = max 0 (min 1 v)"
  have x01: "0 \<le> x" "x \<le> 1" by (simp_all add: x_def)
  define p where "p = (case find_stops x (c # cs) of Some p \<Rightarrow> p | None \<Rightarrow> (c, last (c # cs)))"
  obtain lower upper where p: "p = (lower, upper)" by (cases p)
  define f where "f = (if stop_value upper - stop_value lower = 0 then 0
                       else (x - stop_value lower) / (stop_value upper - stop_value lower))"
  have all: "lower \<in> set (colors scheme) \<and> upper \<in> set (colors scheme)
             \<and> stop_value lower \<le> x \<and> x \<le> stop_value upper"
  proof (cases "find_stops x (c # cs)")
    case None
    with p have l: "lower = c" "upper = last (c # cs)" by (auto simp: p_def simp del: last.simps)
    have "last (c # cs) \<in> set (c # cs)" by (rule last_in_set) simp
    with l assms(3,4) x01 show ?thesis by (simp add: cs del: last.simps)
  next
    case (Some q)
    with p have "find_stops x (c # cs) = Some (lower, upper)" by (simp add: p_def)
    from find_stops_Some [OF this] show ?thesis by (simp add: cs)
  qed
  then have mem: "lower \<in> set (colors scheme)" "upper \<in> set (colors scheme)"
    and ord: "stop_value lower \<le> x" "x \<le> stop_value upper"
    by simp_all
  have f01: "0 \<le> f" "f \<le> 1"
    using ord by (auto simp: f_def divide_le_eq_1 split: if_splits)
  have "color_channels v scheme = Inr (interpolateColor (stop_color lower) (stop_color upper) f)"
    unfolding color_channels_def cs
    by (simp add: Let_def x_def [symmetric] p_def [symmetric] p f_def del: last.simps)
  moreover have "channel_ok (interpolateColor (stop_color lower) (stop_color upper) f)"
    using mem assms(2) f01 by (intro interpolateColor_ok) auto
  ultimately show ?thesis by blast
qed

lemma builtin_schemes:
  assumes "scheme \<in> set COLOR_SCHEMES"
  shows "colors scheme \<noteq> []"
    and "\<And>s. s \<in> set (colors scheme) \<Longrightarrow> channel_ok (stop_color s)"
    and "stop_value (hd (colors scheme)) = 0" and "stop_value (last (colors scheme)) = 1"
  using assms
  by (auto simp: COLOR_SCHEMES_def THERMAL_def GRAYSCALE_def VIRIDIS_def AUTOMOTIVE_def
      channel_ok_def)

lemma builtin_ends:
  assumes "scheme \<in> set COLOR_SCHEMES"
  shows "color_channels 0 scheme = Inr (stop_color (hd (colors scheme)))"
    and "color_channels 1 scheme = Inr (stop_color (last (colors scheme)))"
  using assms
  by (auto simp: COLOR_SCHEMES_def THERMAL_def GRAYSCALE_def VIRIDIS_def AUTOMOTIVE_def
      color_channels_def interpolateColor_def Math_round_def Let_def)









section \<open>The heap\<close>


lemma copy_rows_eq: "copy_rows h rs = ([length h ..< length h + length rs], h @ map Row rs)"
proof (induction rs arbitrary: h)
  case Nil
  show ?case by simp
next
  case (Cons r rs)
  have e: "[length h ..< length h + length (r # rs)]
           = length h # [length (h @ [Row r]) ..< length (h @ [Row r]) + length rs]"
    by (subst upt_conv_Cons) simp_all
  have "copy_rows h (r # rs)
        = (length h # [length (h @ [Row r]) ..< length (h @ [Row r]) + length rs],
           (h @ [Row r]) @ map Row rs)"
    by (simp only: copy_rows.simps alloc_def prod.case Cons [of "h @ [Row r]"])
  then show ?case
    by (simp only: e) simp
qed

lemma copy_grid_eq:
  "copy_grid h content
   = (length h + length (read_grid h content), heap_with h (read_grid h content))"
  by (simp add: copy_grid_def copy_rows_eq alloc_def heap_with_def)

lemma well_formed_table:
  assumes "well_formed h c"
  shows "c < length h" and "h ! c = Table (table_at h c)"
    and "\<And>a. a \<in> set (table_at h c) \<Longrightarrow> a < length h"
  using assms
  by (auto simp: well_formed_def table_at_def list_all_iff split: obj.splits)

text \<open>Reading the input table through the heap of the result gives the input table.\<close>

lemma read_grid_heap_with:
  assumes "well_formed h c"
  shows "read_grid (heap_with h r) c = read_grid h c"
proof -
  note w = well_formed_table [OF assms]
  have t: "table_at (heap_with h r) c = table_at h c"
    using w(1) by (simp add: table_at_def heap_with_def nth_append)
  have "row_at (heap_with h r) a = row_at h a" if "a \<in> set (table_at h c)" for a
    using w(3) [OF that] by (simp add: row_at_def heap_with_def nth_append)
  then show ?thesis
    by (simp add: read_grid_def t)
qed

lemma read_grid_result:
  "read_grid (heap_with h r) (length h + length r) = r"
proof -
  have t: "table_at (heap_with h r) (length h + length r) = [length h ..< length h + length r]"
    by (simp add: table_at_def heap_with_def nth_append)
  have "row_at (heap_with h r) a = r ! (a - length h)"
    if "a \<in> set [length h ..< length h + length r]" for a
    using that by (auto simp: row_at_def heap_with_def nth_append)
  then have "map (row_at (heap_with h r)) [length h ..< length h + length r]
             = map (\<lambda>a. r ! (a - length h)) [length h ..< length h + length r]"
    by (intro map_cong) simp_all
  also have "\<dots> = r"
    by (rule nth_equalityI) (simp_all add: nth_append)
  finally show ?thesis
    by (simp add: read_grid_def t)
qed

lemma store_cell_heap_with:
  assumes "i < length r"
  shows "store_cell (heap_with h r) (length h + length r) i j t = heap_with h (write_cell r i j t)"
proof -
  have t: "table_at (heap_with h r) (length h + length r) = [length h ..< length h + length r]"
    by (simp add: table_at_def heap_with_def nth_append)
  have a: "[length h ..< length h + length r] ! i = length h + i"
    using assms by simp
  have ro: "row_at (heap_with h r) (length h + i) = r ! i"
    using assms by (simp add: row_at_def heap_with_def nth_append)
  have "(h @ map Row r @ [Table [length h ..< length h + length r]])
           [length h + i := Row ((r ! i)[j := t])]
        = h @ map Row (r[i := (r ! i)[j := t]]) @ [Table [length h ..< length h + length r]]"
    using assms by (simp add: list_update_append map_update)
  then show ?thesis
    unfolding store_cell_def Let_def t a ro
    by (simp add: heap_with_def write_cell_def)
qed


lemma fold_step_heap_Inl: "fold (step_heap body c res) ps (Inl e) = Inl e"
  by (induction ps) auto

lemma fold_step_heap:
  assumes "well_formed h c" and "\<And>i j. (i, j) \<in> set ps \<Longrightarrow> i < length (read_grid h c)"
    and "length r = length (read_grid h c)"
  shows "fold (step_heap body c (length h + length (read_grid h c))) ps (Inr (heap_with h r))
         = (case fold (step body (read_grid h c)) ps (Inr r) of
              Inl e \<Rightarrow> Inl e | Inr r' \<Rightarrow> Inr (heap_with h r'))"
  using assms(2,3)
proof (induction ps arbitrary: r)
  case Nil
  show ?case by simp
next
  case (Cons p ps)
  obtain i j where p: "p = (i, j)" by (cases p)
  have i: "i < length r" using Cons.prems(1) [of i j] Cons.prems(2) p by simp
  have rest: "\<And>i j. (i, j) \<in> set ps \<Longrightarrow> i < length (read_grid h c)"
    using Cons.prems(1) by auto
  note rg = read_grid_heap_with [OF assms(1), of r]
  show ?case
  proof (cases "body (read_grid h c) i j")
    case (Inl e)
    then show ?thesis
      by (simp add: p rg fold_step_heap_Inl fold_step_Inl)
  next
    case (Inr x)
    show ?thesis
    proof (cases x)
      case None
      with Inr show ?thesis
        using Cons.IH [OF rest Cons.prems(2)] by (simp add: p rg)
    next
      case (Some t)
      have l: "length (write_cell r i j t) = length (read_grid h c)"
        using Cons.prems(2) by (simp add: write_cell_length)
      have s: "store_cell (heap_with h r) (length h + length (read_grid h c)) i j t
               = heap_with h (write_cell r i j t)"
        using store_cell_heap_with [OF i, of h j t] Cons.prems(2) by simp
      from Inr Some show ?thesis
        using Cons.IH [OF rest l] by (simp add: p rg s)
    qed
  qed
qed

lemma run_heap_eq:
  assumes "well_formed h c" and "\<And>i j. (i, j) \<in> set ps \<Longrightarrow> i < length (read_grid h c)"
  shows "run_heap body h c ps
         = (case run body (read_grid h c) ps of
              Inl e \<Rightarrow> Inl e
            | Inr r \<Rightarrow> Inr (length h + length (read_grid h c), heap_with h r))"
  using fold_step_heap [OF assms, where r = "read_grid h c" and body = body]
  by (simp add: run_heap_def copy_grid_eq run_def split: sum.splits)

lemma run_permuted:
  assumes "set ps = set qs"
    and "\<And>i j e. (i, j) \<in> set ps \<Longrightarrow> body g i j = Inl e \<Longrightarrow> e = RangeError"
    and "\<And>i j. (i, j) \<in> set ps \<Longrightarrow> i < length g \<and> j < length (g ! i)"
  shows "run body g ps = run body g qs"
proof (cases "run body g ps")
  case (Inl e)
  from run_error [OF Inl] obtain i j where ij: "(i, j) \<in> set ps" "body g i j = Inl e" by blast
  with assms(2) have e: "e = RangeError" by blast
  from ij assms(1) have "(i, j) \<in> set qs" by simp
  from run_raises [of i j qs body g e] this ij(2)
  obtain e' where e': "run body g qs = Inl e'" by blast
  from run_error [OF e'] assms(1,2) have "e' = RangeError" by blast
  with Inl e e' show ?thesis by simp
next
  case (Inr r)
  have ok: "\<exists>x. body g i j = Inr x" if "(i, j) \<in> set qs" for i j
  proof (cases "body g i j")
    case (Inl e)
    from that assms(1) have "(i, j) \<in> set ps" by simp
    from run_raises [of i j ps body g e] this Inl \<open>run body g ps = Inr r\<close> show ?thesis by auto
  next
    case (Inr x)
    then show ?thesis by blast
  qed
  from run_Inr [of qs body g, OF ok] obtain r' where r': "run body g qs = Inr r'" by blast
  note s = run_shape [OF Inr] and s' = run_shape [OF r']
  have "r = r'"
  proof (rule nth_equalityI)
    show "length r = length r'" using s s' by simp
    fix i assume i: "i < length r"
    show "r ! i = r' ! i"
    proof (rule nth_equalityI)
      show "length (r ! i) = length (r' ! i)" using s s' by simp
      fix j assume "j < length (r ! i)"
      with i s have b: "i < length g" "j < length (g ! i)" by simp_all
      from run_nth [OF Inr b] run_nth [OF r' b] assms(1)
      show "r ! i ! j = r' ! i ! j" by simp
    qed
  qed
  with Inr r' show ?thesis by simp
qed

lemma body_of_error:
  assumes "in_mask content (start_of skipFirstRow) (start_of skipFirstColumn) i j"
    and "body_of opn skipFirstRow skipFirstColumn content i j = Inl e"
  shows "e = RangeError"
  using assms ma_body_error gauss_body_error bilinear_body_error fill_body_error
  by (cases opn) (auto simp: body_of_def)

lemma apply_operation_run:
  "apply_operation opn content skipFirstRow skipFirstColumn
   = run (body_of opn skipFirstRow skipFirstColumn) content
       (positions content (start_of skipFirstRow) (start_of skipFirstColumn))"
  by (cases opn)
     (simp_all add: apply_operation_def body_of_def applyMovingAverage_def
        applyGaussianSmoothing_def applyBilinearInterpolation_def autoFillBlanks_def Let_def)

lemma heap_with_prefix: "take (length h) (heap_with h r) = h"
  by (simp add: heap_with_def)

lemma heap_with_fresh_rows:
  "a \<in> set (table_at (heap_with h r) (length h + length r)) \<Longrightarrow> length h \<le> a"
  by (simp add: table_at_def heap_with_def nth_append)

section \<open>Properties\<close>



text \<open>
  C3 (as amended).  No smoothing operation rejects its parameter.  \<^verbatim>\<open>applyMovingAverage\<close>
  treats an even window size as the next odd one and returns the table unchanged for a
  negative window size; \<^verbatim>\<open>applyGaussianSmoothing\<close> returns the table unchanged for a
  zero sigma (the kernel is \<^verbatim>\<open>NaN\<close>) and for a sigma of at most \<open>-1/3\<close> (the kernel is
  empty).
\<close>

theorem smoothing_parameters_are_not_validated:
  "(windowSize mod 2 = 0 \<longrightarrow>
      applyMovingAverage content windowSize skipFirstRow skipFirstColumn
        = applyMovingAverage content (windowSize + 1) skipFirstRow skipFirstColumn)
   \<and> (windowSize < 0 \<longrightarrow>
        applyMovingAverage content windowSize skipFirstRow skipFirstColumn = Inr content)
   \<and> (sigma = 0 \<or> sigma * 3 \<le> - 1 \<longrightarrow>
        applyGaussianSmoothing content sigma skipFirstRow skipFirstColumn = Inr content)"
  by (simp add: moving_average_even_window moving_average_negative_window
      gaussian_degenerate_sigma)

theorem smoothing_parameters_are_not_validated_witness:
  "(2::int) mod 2 = 0
   \<and> applyMovingAverage [[''1'', ''x'']] 2 False False
       = applyMovingAverage [[''1'', ''x'']] (2 + 1) False False
   \<and> (- 3 :: int) < 0
   \<and> applyMovingAverage [[''1'', ''x'']] (- 3) False False = Inr [[''1'', ''x'']]
   \<and> ((0::real) = 0 \<or> (0::real) * 3 \<le> - 1)
   \<and> applyGaussianSmoothing [[''1'', ''x'']] 0 False False = Inr [[''1'', ''x'']]"
  using smoothing_parameters_are_not_validated [of 2 "[[''1'', ''x'']]" False False 0]
    smoothing_parameters_are_not_validated [of "- 3" "[[''1'', ''x'']]" False False 0]
  by simp

text \<open>
  The claim as stated fails: an even window size, a zero window size, a negative window
  size and a zero or negative sigma all return a table, none raises.
\<close>

theorem invalid_parameter_counterexample:
  "applyMovingAverage [[''1'', ''x'']] 2 False False = Inr [[''1.00'', ''x'']]
   \<and> applyMovingAverage [[''1'', ''x'']] 0 False False = Inr [[''1.00'', ''x'']]
   \<and> applyMovingAverage [[''1'', ''x'']] (- 3) False False = Inr [[''1'', ''x'']]
   \<and> applyGaussianSmoothing [[''1'', ''x'']] 0 False False = Inr [[''1'', ''x'']]
   \<and> applyGaussianSmoothing [[''1'', ''x'']] (- 1) False False = Inr [[''1'', ''x'']]"
proof -
  have "applyMovingAverage [[''1'', ''x'']] 2 False False = Inr [[''1.00'', ''x'']]"
    by code_simp
  moreover have "applyMovingAverage [[''1'', ''x'']] 0 False False = Inr [[''1.00'', ''x'']]"
    by code_simp
  moreover have "applyMovingAverage [[''1'', ''x'']] (- 3) False False = Inr [[''1'', ''x'']]"
    by code_simp
  moreover have "applyGaussianSmoothing [[''1'', ''x'']] 0 False False = Inr [[''1'', ''x'']]"
    by (rule gaussian_degenerate_sigma) simp
  moreover have "applyGaussianSmoothing [[''1'', ''x'']] (- 1) False False = Inr [[''1'', ''x'']]"
    by (rule gaussian_degenerate_sigma) simp
  ultimately show ?thesis by simp
qed




text \<open>
  C4 (as amended).  A cell of the mask that one of the three smoothing operations
  rewrites gets the smoothed value printed with \<open>max d 2\<close> decimals, where \<open>d\<close> is the
  number of characters between the first dot and the next dot (or the end) of the cell
  text without its markup, 0 when that text has no dot.  This holds for every cell none
  of whose tags contains a dot.
\<close>

theorem smoothed_text_decimals:
  assumes "in_mask content (start_of skipFirstRow) (start_of skipFirstColumn) i j"
    and "\<not> dot_in_tag (content ! i ! j)"
  shows "(applyMovingAverage content windowSize skipFirstRow skipFirstColumn = Inr rm \<and>
          ma_body ((if windowSize mod 2 = 0 then windowSize + 1 else windowSize) div 2)
            (start_of skipFirstRow) (start_of skipFirstColumn) content i j \<noteq> Inr None
          \<longrightarrow> toFixed (ma_value ((if windowSize mod 2 = 0 then windowSize + 1 else windowSize) div 2)
                        (start_of skipFirstRow) (start_of skipFirstColumn) content i j)
                      (max (decimals_between (strip_tags (content ! i ! j))) 2) = Inr (rm ! i ! j))
       \<and> (applyGaussianSmoothing content sigma skipFirstRow skipFirstColumn = Inr rg \<and>
          gauss_body ((\<lceil>sigma * 3\<rceil> * 2 + 1) div 2)
            (gaussian_kernel sigma ((\<lceil>sigma * 3\<rceil> * 2 + 1) div 2))
            (start_of skipFirstRow) (start_of skipFirstColumn) content i j \<noteq> Inr None
          \<longrightarrow> toFixed (gauss_value ((\<lceil>sigma * 3\<rceil> * 2 + 1) div 2)
                        (gaussian_kernel sigma ((\<lceil>sigma * 3\<rceil> * 2 + 1) div 2))
                        (start_of skipFirstRow) (start_of skipFirstColumn) content i j)
                      (max (decimals_between (strip_tags (content ! i ! j))) 2) = Inr (rg ! i ! j))
       \<and> (applyBilinearInterpolation content skipFirstRow skipFirstColumn = Inr rb \<and>
          bilinear_body (start_of skipFirstRow) (start_of skipFirstColumn) content i j \<noteq> Inr None
          \<longrightarrow> toFixed (bilinear_value (start_of skipFirstRow) (start_of skipFirstColumn) content i j)
                      (max (decimals_between (strip_tags (content ! i ! j))) 2) = Inr (rb ! i ! j))"
proof (intro conjI impI; elim conjE)
  define sr where "sr = start_of skipFirstRow"
  define sc where "sc = start_of skipFirstColumn"
  note m = assms(1) [folded sr_def sc_def]
  note d = decimals_of_stripped [OF assms(2), symmetric]
  {
    define h where "h = (if windowSize mod 2 = 0 then windowSize + 1 else windowSize) div 2"
    assume r: "applyMovingAverage content windowSize skipFirstRow skipFirstColumn = Inr rm"
      and b: "ma_body ((if windowSize mod 2 = 0 then windowSize + 1 else windowSize) div 2)
            (start_of skipFirstRow) (start_of skipFirstColumn) content i j \<noteq> Inr None"
    from r have "run (ma_body h sr sc) content (positions content sr sc) = Inr rm"
      by (simp add: applyMovingAverage_def Let_def h_def sr_def sc_def)
    from run_rewritten [OF this m] b
    have "ma_body h sr sc content i j = Inr (Some (rm ! i ! j))"
      by (simp add: h_def sr_def sc_def)
    from ma_body_value [OF this]
    show "toFixed (ma_value ((if windowSize mod 2 = 0 then windowSize + 1 else windowSize) div 2)
                        (start_of skipFirstRow) (start_of skipFirstColumn) content i j)
                      (max (decimals_between (strip_tags (content ! i ! j))) 2) = Inr (rm ! i ! j)"
      by (simp add: d h_def sr_def sc_def)
  }
  {
    define h where "h = (\<lceil>sigma * 3\<rceil> * 2 + 1) div 2"
    assume r: "applyGaussianSmoothing content sigma skipFirstRow skipFirstColumn = Inr rg"
      and b: "gauss_body ((\<lceil>sigma * 3\<rceil> * 2 + 1) div 2)
            (gaussian_kernel sigma ((\<lceil>sigma * 3\<rceil> * 2 + 1) div 2))
            (start_of skipFirstRow) (start_of skipFirstColumn) content i j \<noteq> Inr None"
    from r have "run (gauss_body h (gaussian_kernel sigma h) sr sc) content (positions content sr sc)
                   = Inr rg"
      by (simp add: applyGaussianSmoothing_def Let_def h_def sr_def sc_def)
    from run_rewritten [OF this m] b
    have "gauss_body h (gaussian_kernel sigma h) sr sc content i j = Inr (Some (rg ! i ! j))"
      by (simp add: h_def sr_def sc_def)
    from gauss_body_value [OF this]
    show "toFixed (gauss_value ((\<lceil>sigma * 3\<rceil> * 2 + 1) div 2)
                        (gaussian_kernel sigma ((\<lceil>sigma * 3\<rceil> * 2 + 1) div 2))
                        (start_of skipFirstRow) (start_of skipFirstColumn) content i j)
                      (max (decimals_between (strip_tags (content ! i ! j))) 2) = Inr (rg ! i ! j)"
      by (simp add: d h_def sr_def sc_def)
  }
  {
    assume r: "applyBilinearInterpolation content skipFirstRow skipFirstColumn = Inr rb"
      and b: "bilinear_body (start_of skipFirstRow) (start_of skipFirstColumn) content i j \<noteq> Inr None"
    from r have "run (bilinear_body sr sc) content (positions content sr sc) = Inr rb"
      by (simp add: applyBilinearInterpolation_def Let_def sr_def sc_def)
    from run_rewritten [OF this m] b
    have "bilinear_body sr sc content i j = Inr (Some (rb ! i ! j))"
      by (simp add: sr_def sc_def)
    from bilinear_body_value [OF m this]
    show "toFixed (bilinear_value (start_of skipFirstRow) (start_of skipFirstColumn) content i j)
                      (max (decimals_between (strip_tags (content ! i ! j))) 2) = Inr (rb ! i ! j)"
      by (simp add: d sr_def sc_def)
  }
qed

theorem smoothed_text_decimals_witness:
  "in_mask [[''<b>1.250</b>'']] (start_of False) (start_of False) 0 0
   \<and> \<not> dot_in_tag ([[''<b>1.250</b>'']] ! 0 ! 0)
   \<and> applyMovingAverage [[''<b>1.250</b>'']] 3 False False = Inr [[''1.250'']]
   \<and> toFixed (ma_value ((if (3::int) mod 2 = 0 then 3 + 1 else 3) div 2)
                 (start_of False) (start_of False) [[''<b>1.250</b>'']] 0 0)
        (max (decimals_between (strip_tags ([[''<b>1.250</b>'']] ! 0 ! 0))) 2)
       = Inr ([[''1.250'']] ! 0 ! 0)
   \<and> applyGaussianSmoothing [[''<b>1.250</b>'']] 1 False False = Inr [[''1.250'']]
   \<and> toFixed (gauss_value ((\<lceil>(1::real) * 3\<rceil> * 2 + 1) div 2)
                 (gaussian_kernel 1 ((\<lceil>(1::real) * 3\<rceil> * 2 + 1) div 2))
                 (start_of False) (start_of False) [[''<b>1.250</b>'']] 0 0)
        (max (decimals_between (strip_tags ([[''<b>1.250</b>'']] ! 0 ! 0))) 2)
       = Inr ([[''1.250'']] ! 0 ! 0)
   \<and> in_mask [[''1'', ''2'']] (start_of False) (start_of False) 0 0
   \<and> \<not> dot_in_tag ([[''1'', ''2'']] ! 0 ! 0)
   \<and> applyBilinearInterpolation [[''1'', ''2'']] False False = Inr [[''1.50'', ''1.50'']]
   \<and> toFixed (bilinear_value (start_of False) (start_of False) [[''1'', ''2'']] 0 0)
        (max (decimals_between (strip_tags ([[''1'', ''2'']] ! 0 ! 0))) 2)
       = Inr ([[''1.50'', ''1.50'']] ! 0 ! 0)"
proof -
  have a1: "in_mask [[''<b>1.250</b>'']] (start_of False) (start_of False) 0 0"
    by code_simp
  have a2: "\<not> dot_in_tag ([[''<b>1.250</b>'']] ! 0 ! 0)"
    by code_simp
  have m1: "applyMovingAverage [[''<b>1.250</b>'']] 3 False False = Inr [[''1.250'']]"
    by code_simp
  have m2: "ma_body ((if (3::int) mod 2 = 0 then 3 + 1 else 3) div 2)
              (start_of False) (start_of False) [[''<b>1.250</b>'']] 0 0 \<noteq> Inr None"
    by code_simp
  have p: "parseNumericValue (Some ''<b>1.250</b>'') = Some (Fin (5 / 4))"
    by code_simp
  have t: "toFixed (Fin (5 / 4)) (max (decimals_of ''<b>1.250</b>'') 2) = Inr ''1.250''"
    by code_simp
  have g1: "applyGaussianSmoothing [[''<b>1.250</b>'']] 1 False False = Inr [[''1.250'']]"
    using gaussian_single_cell(1) [OF p, of 1] by (simp add: t)
  have g2: "gauss_body ((\<lceil>(1::real) * 3\<rceil> * 2 + 1) div 2)
              (gaussian_kernel 1 ((\<lceil>(1::real) * 3\<rceil> * 2 + 1) div 2))
              (start_of False) (start_of False) [[''<b>1.250</b>'']] 0 0 \<noteq> Inr None"
    using gaussian_single_cell(3) [OF p, of 1] by (simp add: t start_of_def)
  have b1: "in_mask [[''1'', ''2'']] (start_of False) (start_of False) 0 0"
    by code_simp
  have b2: "\<not> dot_in_tag ([[''1'', ''2'']] ! 0 ! 0)"
    by code_simp
  have b3: "applyBilinearInterpolation [[''1'', ''2'']] False False = Inr [[''1.50'', ''1.50'']]"
    by code_simp
  have b4: "bilinear_body (start_of False) (start_of False) [[''1'', ''2'']] 0 0 \<noteq> Inr None"
    by code_simp
  note A = smoothed_text_decimals [OF a1 a2, where windowSize = 3 and rm = "[[''1.250'']]"
      and sigma = 1 and rg = "[[''1.250'']]"]
  note B = smoothed_text_decimals [OF b1 b2, where rb = "[[''1.50'', ''1.50'']]"]
  from A m1 m2 g1 g2
  have c1: "toFixed (ma_value ((if (3::int) mod 2 = 0 then 3 + 1 else 3) div 2)
                 (start_of False) (start_of False) [[''<b>1.250</b>'']] 0 0)
        (max (decimals_between (strip_tags ([[''<b>1.250</b>'']] ! 0 ! 0))) 2)
       = Inr ([[''1.250'']] ! 0 ! 0)"
    and c2: "toFixed (gauss_value ((\<lceil>(1::real) * 3\<rceil> * 2 + 1) div 2)
                 (gaussian_kernel 1 ((\<lceil>(1::real) * 3\<rceil> * 2 + 1) div 2))
                 (start_of False) (start_of False) [[''<b>1.250</b>'']] 0 0)
        (max (decimals_between (strip_tags ([[''<b>1.250</b>'']] ! 0 ! 0))) 2)
       = Inr ([[''1.250'']] ! 0 ! 0)"
    by blast+
  from B b3 b4
  have c3: "toFixed (bilinear_value (start_of False) (start_of False) [[''1'', ''2'']] 0 0)
        (max (decimals_between (strip_tags ([[''1'', ''2'']] ! 0 ! 0))) 2)
       = Inr ([[''1.50'', ''1.50'']] ! 0 ! 0)"
    by blast
  from a1 a2 m1 c1 g1 c2 b1 b2 b3 c3 show ?thesis
    by (intro conjI)
qed

text \<open>
  The claim as stated counts everything after the first dot.  The code counts up to the
  next dot: the cell \<^verbatim>\<open>1.2.3\<close> parses as 1.2 and is printed with 2 decimals, where the
  claim asks for 3.
\<close>

theorem spec_decimals_counterexample:
  "applyMovingAverage [[''1.2.3'']] 3 False False = Inr [[''1.20'']]
   \<and> ma_value 1 0 0 [[''1.2.3'']] 0 0 = Fin (6 / 5)
   \<and> decimalPlaces_spec ''1.2.3'' = 3
   \<and> toFixed (Fin (6 / 5)) (max (decimalPlaces_spec ''1.2.3'') 2) = Inr ''1.200''"
  by code_simp

text \<open>
  C1 (as amended).  A directional search of \<^verbatim>\<open>autoFillBlanks\<close> never fails.  It walks
  outward, inside the search area (the rows of the mask, and the columns of the mask
  that the first row has), over every cell that is blank or is not a number, and stops
  at the first cell \<open>k\<close> steps away that is either outside the area, and then the
  direction contributes nothing, or is not blank and parses as a number, and then the
  direction contributes that number, the distance \<open>k\<close> and the cell's decimals.  A cell
  that is not blank and not a number is passed over like a blank one.
\<close>

theorem nearest_skips_blanks_and_labels:
  "\<exists>k>0. (\<forall>m. 0 < m \<and> m < k \<longrightarrow>
              in_area content startRow startCol (int row + int m * dRow d) (int col + int m * dCol d)
              \<and> \<not> is_source content (int row + int m * dRow d) (int col + int m * dCol d))
        \<and> (if in_area content startRow startCol (int row + int k * dRow d) (int col + int k * dCol d)
           then is_source content (int row + int k * dRow d) (int col + int k * dCol d)
                \<and> findNearest content startRow startCol row col d
                    = Inr (Some (found_at content (int row + int k * dRow d)
                                   (int col + int k * dCol d) (int k)))
           else findNearest content startRow startCol row col d = Inr None)"
  by (rule findNearest_char)

theorem nearest_skips_blanks_and_labels_witness:
  "in_area [['''', ''x'', ''5'']] 0 0 (int 0 + int 1 * dRow Right) (int 0 + int 1 * dCol Right)
   \<and> \<not> is_source [['''', ''x'', ''5'']] (int 0 + int 1 * dRow Right) (int 0 + int 1 * dCol Right)
   \<and> findNearest [['''', ''x'', ''5'']] 0 0 0 0 Right = Inr (Some (Fin 5, 2, 0))
   \<and> (\<exists>k>0. (\<forall>m. 0 < m \<and> m < k \<longrightarrow>
              in_area [['''', ''x'', ''5'']] 0 0 (int 0 + int m * dRow Right) (int 0 + int m * dCol Right)
              \<and> \<not> is_source [['''', ''x'', ''5'']] (int 0 + int m * dRow Right) (int 0 + int m * dCol Right))
        \<and> is_source [['''', ''x'', ''5'']] (int 0 + int k * dRow Right) (int 0 + int k * dCol Right)
        \<and> Inr (Some (Fin 5, 2, 0)) = (Inr (Some (found_at [['''', ''x'', ''5'']] (int 0 + int k * dRow Right)
                                   (int 0 + int k * dCol Right) (int k)))
                                      :: error + (number \<times> int \<times> nat) option))"
proof -
  have a: "in_area [['''', ''x'', ''5'']] 0 0 (int 0 + int 1 * dRow Right) (int 0 + int 1 * dCol Right)"
    by code_simp
  have b: "\<not> is_source [['''', ''x'', ''5'']] (int 0 + int 1 * dRow Right) (int 0 + int 1 * dCol Right)"
    by code_simp
  have c: "findNearest [['''', ''x'', ''5'']] 0 0 0 0 Right = Inr (Some (Fin 5, 2, 0))"
    by code_simp
  from nearest_skips_blanks_and_labels [of "[['''', ''x'', ''5'']]" 0 0 0 Right 0]
  obtain k where k: "0 < k"
    "\<forall>m. 0 < m \<and> m < k \<longrightarrow>
              in_area [['''', ''x'', ''5'']] 0 0 (int 0 + int m * dRow Right) (int 0 + int m * dCol Right)
              \<and> \<not> is_source [['''', ''x'', ''5'']] (int 0 + int m * dRow Right) (int 0 + int m * dCol Right)"
    "if in_area [['''', ''x'', ''5'']] 0 0 (int 0 + int k * dRow Right) (int 0 + int k * dCol Right)
           then is_source [['''', ''x'', ''5'']] (int 0 + int k * dRow Right) (int 0 + int k * dCol Right)
                \<and> findNearest [['''', ''x'', ''5'']] 0 0 0 0 Right
                    = Inr (Some (found_at [['''', ''x'', ''5'']] (int 0 + int k * dRow Right)
                                   (int 0 + int k * dCol Right) (int k)))
           else findNearest [['''', ''x'', ''5'']] 0 0 0 0 Right = Inr None"
    by blast
  from k(3) c have
    "is_source [['''', ''x'', ''5'']] (int 0 + int k * dRow Right) (int 0 + int k * dCol Right)
     \<and> Inr (Some (Fin 5, 2, 0)) = (Inr (Some (found_at [['''', ''x'', ''5'']] (int 0 + int k * dRow Right)
                                   (int 0 + int k * dCol Right) (int k)))
                                      :: error + (number \<times> int \<times> nat) option)"
    by (auto split: if_splits)
  with a b c k(1,2) show ?thesis by blast
qed

text \<open>
  The claim as stated fails: in the row below the label \<^verbatim>\<open>x\<close> is not blank and not a
  number, and the search to the right of the first cell goes past it and returns the 5
  two steps away.
\<close>

theorem label_blocks_counterexample:
  "\<not> isEmpty (Some ''x'') \<and> parseNumericValue (Some ''x'') = None
   \<and> findNearest [['''', ''x'', ''5'']] 0 0 0 0 Right = Inr (Some (Fin 5, 2, 0))
   \<and> autoFillBlanks [['''', ''x'', ''5'']] False False = Inr [[''5.0'', ''x'', ''5'']]"
  by code_simp







text \<open>
  C6.  For each of the four built-in schemes and every value (the value is clamped to
  \<open>[0, 1]\<close> first, so in particular for every value in \<open>[0, 1]\<close>), \<^verbatim>\<open>getColorForValue\<close>
  returns the text of three channels that are each between 0 and 255; for the value 0 it
  returns the colour of the first stop of the scheme, for the value 1 the colour of the
  last stop.
\<close>

theorem builtin_colors_in_range:
  assumes "scheme \<in> set COLOR_SCHEMES"
  shows "(\<exists>r g b. color_channels v scheme = Inr (r, g, b)
            \<and> getColorForValue v scheme = Inr (rgb_string (r, g, b))
            \<and> 0 \<le> r \<and> r \<le> 255 \<and> 0 \<le> g \<and> g \<le> 255 \<and> 0 \<le> b \<and> b \<le> 255)
         \<and> getColorForValue 0 scheme = Inr (rgb_string (stop_color (hd (colors scheme))))
         \<and> getColorForValue 1 scheme = Inr (rgb_string (stop_color (last (colors scheme))))"
proof -
  from color_channels_ok [OF builtin_schemes [OF assms], of v]
  obtain c where c: "color_channels v scheme = Inr c" "channel_ok c" by blast
  obtain r g b where "c = (r, g, b)" by (cases c)
  with c have "color_channels v scheme = Inr (r, g, b)
            \<and> getColorForValue v scheme = Inr (rgb_string (r, g, b))
            \<and> 0 \<le> r \<and> r \<le> 255 \<and> 0 \<le> g \<and> g \<le> 255 \<and> 0 \<le> b \<and> b \<le> 255"
    by (simp add: getColorForValue_def channel_ok_def)
  then show ?thesis
    using builtin_ends [OF assms] by (auto simp: getColorForValue_def)
qed

theorem builtin_colors_in_range_witness:
  "VIRIDIS \<in> set COLOR_SCHEMES
   \<and> getColorForValue 0.7 VIRIDIS = Inr ''rgb(82, 190, 106)''
   \<and> getColorForValue 0 VIRIDIS = Inr (rgb_string (stop_color (hd (colors VIRIDIS))))
   \<and> getColorForValue 1 VIRIDIS = Inr (rgb_string (stop_color (last (colors VIRIDIS))))
   \<and> rgb_string (stop_color (hd (colors VIRIDIS))) = ''rgb(68, 1, 84)''
   \<and> rgb_string (stop_color (last (colors VIRIDIS))) = ''rgb(253, 231, 37)''"
proof -
  have m: "VIRIDIS \<in> set COLOR_SCHEMES" by (simp add: COLOR_SCHEMES_def)
  have a: "getColorForValue 0.7 VIRIDIS = Inr ''rgb(82, 190, 106)''" by code_simp
  have b: "rgb_string (stop_color (hd (colors VIRIDIS))) = ''rgb(68, 1, 84)''" by code_simp
  have c: "rgb_string (stop_color (last (colors VIRIDIS))) = ''rgb(253, 231, 37)''" by code_simp
  from builtin_colors_in_range [OF m, where v = "0.7"] m a b c show ?thesis by blast
qed



text \<open>
  C8.  On a heap that holds the input table, each of the four operations, with its cells
  visited in any order, either raises the error the operation raises on the input table,
  or returns the address of a table that did not exist before, whose rows did not exist
  before either, and leaves every object that was on the heap as it was; so the input
  table reads the same before and after.  The table returned is the one the operation
  computes from the input table with the cells visited in the order of the source: it
  does not depend on the order in which the cells are visited.
\<close>

theorem operations_leave_input_and_order_free:
  assumes "well_formed h content"
    and "mset ps = mset (positions (read_grid h content) (start_of skipFirstRow)
                           (start_of skipFirstColumn))"
  shows "(\<exists>e. apply_on_heap opn h content skipFirstRow skipFirstColumn ps = Inl e
              \<and> apply_operation opn (read_grid h content) skipFirstRow skipFirstColumn = Inl e)
       \<or> (\<exists>result h'. apply_on_heap opn h content skipFirstRow skipFirstColumn ps = Inr (result, h')
             \<and> length h \<le> result
             \<and> list_all (\<lambda>a. length h \<le> a) (table_at h' result)
             \<and> take (length h) h' = h
             \<and> read_grid h' content = read_grid h content
             \<and> apply_operation opn (read_grid h content) skipFirstRow skipFirstColumn
                 = Inr (read_grid h' result))"
proof -
  define g where "g = read_grid h content"
  define sr where "sr = start_of skipFirstRow"
  define sc where "sc = start_of skipFirstColumn"
  define body where "body = body_of opn skipFirstRow skipFirstColumn"
  from assms(2) have st: "set ps = set (positions g sr sc)"
    unfolding g_def sr_def sc_def by (rule mset_eq_setD)
  have m: "in_mask g sr sc i j" if "(i, j) \<in> set ps" for i j
    using that st by (simp add: in_positions in_mask_def)
  have rng: "i < length g \<and> j < length (g ! i)" if "(i, j) \<in> set ps" for i j
    using m [OF that] by (simp add: in_mask_def)
  have err: "e = RangeError" if "(i, j) \<in> set ps" "body g i j = Inl e" for i j e
    using body_of_error [OF m [OF that(1), unfolded sr_def sc_def]] that(2)
    by (simp add: body_def)
  have "run body g ps = run body g (positions g sr sc)"
    by (rule run_permuted [OF st]) (use err rng in auto)
  then have pure: "apply_operation opn g skipFirstRow skipFirstColumn = run body g ps"
    by (simp add: apply_operation_run body_def sr_def sc_def)
  have hp: "apply_on_heap opn h content skipFirstRow skipFirstColumn ps
            = (case run body g ps of
                 Inl e \<Rightarrow> Inl e
               | Inr r \<Rightarrow> Inr (length h + length g, heap_with h r))"
    unfolding apply_on_heap_def body_def [symmetric] g_def
    by (rule run_heap_eq [OF assms(1)]) (use rng in \<open>simp add: g_def\<close>)
  show ?thesis
  proof (cases "run body g ps")
    case (Inl e)
    with hp pure show ?thesis by (simp add: g_def)
  next
    case (Inr r)
    from run_shape [OF Inr] have len: "length r = length g" by simp
    have "list_all (\<lambda>a. length h \<le> a) (table_at (heap_with h r) (length h + length g))"
      using heap_with_fresh_rows [of _ h r] by (simp add: list_all_iff len)
    moreover have "read_grid (heap_with h r) (length h + length g) = r"
      using read_grid_result [of h r] by (simp add: len)
    ultimately show ?thesis
      using hp pure Inr read_grid_heap_with [OF assms(1), of r]
      by (simp add: g_def heap_with_prefix)
  qed
qed

theorem operations_leave_input_and_order_free_witness:
  "well_formed [Row [''1'', ''2''], Table [0]] 1
   \<and> mset [(0, 1), (0, 0)]
       = mset (positions (read_grid [Row [''1'', ''2''], Table [0]] 1) (start_of False) (start_of False))
   \<and> apply_on_heap Bilinear [Row [''1'', ''2''], Table [0]] 1 False False [(0, 1), (0, 0)]
       = Inr (3, [Row [''1'', ''2''], Table [0], Row [''1.50'', ''1.50''], Table [2]])
   \<and> take (length [Row [''1'', ''2''], Table [0]])
        [Row [''1'', ''2''], Table [0], Row [''1.50'', ''1.50''], Table [2]]
       = [Row [''1'', ''2''], Table [0]]
   \<and> read_grid [Row [''1'', ''2''], Table [0], Row [''1.50'', ''1.50''], Table [2]] 1
       = read_grid [Row [''1'', ''2''], Table [0]] 1
   \<and> apply_operation Bilinear (read_grid [Row [''1'', ''2''], Table [0]] 1) False False
       = Inr (read_grid [Row [''1'', ''2''], Table [0], Row [''1.50'', ''1.50''], Table [2]] 3)"
proof -
  have wf: "well_formed [Row [''1'', ''2''], Table [0]] 1"
    by code_simp
  have p: "positions (read_grid [Row [''1'', ''2''], Table [0]] 1) (start_of False) (start_of False)
           = [(0, 0), (0, 1)]"
    by code_simp
  have ms: "mset [(0, 1), (0, 0)]
       = mset (positions (read_grid [Row [''1'', ''2''], Table [0]] 1) (start_of False) (start_of False))"
    unfolding p by simp
  have "run_heap (bilinear_body (start_of False) (start_of False)) [Row [''1'', ''2''], Table [0]] 1
          [(0, 1), (0, 0)]
        = Inr (3, [Row [''1'', ''2''], Table [0], Row [''1.50'', ''1.50''], Table [2]])"
    by code_simp
  then have ev: "apply_on_heap Bilinear [Row [''1'', ''2''], Table [0]] 1 False False [(0, 1), (0, 0)]
       = Inr (3, [Row [''1'', ''2''], Table [0], Row [''1.50'', ''1.50''], Table [2]])"
    by (simp add: apply_on_heap_def body_of_def)
  from operations_leave_input_and_order_free [OF wf ms, of Bilinear] ev wf ms
  show ?thesis
    by auto
qed

end
